theory Spec2Isabelle
  imports Complex_Main
begin

section \<open>Numbers\<close>

text \<open>
  The source computes with JavaScript numbers. They are modelled as the reals extended
  with the two infinities and NaN. Arithmetic on finite values is exact: the rounding
  and the overflow of IEEE doubles are not modelled, and there is one zero (the
  positive one). What is modelled of IEEE arithmetic is what decides control flow in the
  source: division by zero, the propagation of infinities and NaN, comparisons with NaN
  (always false), and the truthiness of a number (\<open>0\<close> and NaN are falsy).

  The theorems stated on this arithmetic are of two kinds. Those about what the loops do
  use no property of \<open>+\<close>, \<open>-\<close>, \<open>*\<close>, \<open>/\<close> and the square root: they are about
  the values as they are computed, rounded or not. Those of the sections on finite
  numbers and on exact arithmetic hold without rounding only. The rounding itself is in
  the section on the arithmetic of doubles, with copies of the two functions of the
  source that round after every operation.
\<close>

datatype number = Fin real | PInf | NInf | NaN

instantiation number :: "{plus, minus, times, inverse, ord}"
begin

fun plus_number :: "number \<Rightarrow> number \<Rightarrow> number" where
  "plus_number (Fin a) (Fin b) = Fin (a + b)"
| "plus_number NaN _ = NaN"
| "plus_number _ NaN = NaN"
| "plus_number PInf NInf = NaN"
| "plus_number NInf PInf = NaN"
| "plus_number PInf _ = PInf"
| "plus_number _ PInf = PInf"
| "plus_number NInf _ = NInf"
| "plus_number _ NInf = NInf"

fun minus_number :: "number \<Rightarrow> number \<Rightarrow> number" where
  "minus_number (Fin a) (Fin b) = Fin (a - b)"
| "minus_number NaN _ = NaN"
| "minus_number _ NaN = NaN"
| "minus_number PInf PInf = NaN"
| "minus_number NInf NInf = NaN"
| "minus_number PInf _ = PInf"
| "minus_number _ NInf = PInf"
| "minus_number NInf _ = NInf"
| "minus_number _ PInf = NInf"

fun times_number :: "number \<Rightarrow> number \<Rightarrow> number" where
  "times_number (Fin a) (Fin b) = Fin (a * b)"
| "times_number NaN _ = NaN"
| "times_number _ NaN = NaN"
| "times_number PInf (Fin b) = (if b = 0 then NaN else if 0 < b then PInf else NInf)"
| "times_number NInf (Fin b) = (if b = 0 then NaN else if 0 < b then NInf else PInf)"
| "times_number (Fin a) PInf = (if a = 0 then NaN else if 0 < a then PInf else NInf)"
| "times_number (Fin a) NInf = (if a = 0 then NaN else if 0 < a then NInf else PInf)"
| "times_number PInf PInf = PInf"
| "times_number NInf NInf = PInf"
| "times_number PInf NInf = NInf"
| "times_number NInf PInf = NInf"

fun divide_number :: "number \<Rightarrow> number \<Rightarrow> number" where
  "divide_number (Fin a) (Fin b) =
     (if b \<noteq> 0 then Fin (a / b)
      else if a = 0 then NaN else if 0 < a then PInf else NInf)"
| "divide_number NaN _ = NaN"
| "divide_number _ NaN = NaN"
| "divide_number (Fin a) PInf = Fin 0"
| "divide_number (Fin a) NInf = Fin 0"
| "divide_number PInf (Fin b) = (if 0 \<le> b then PInf else NInf)"
| "divide_number NInf (Fin b) = (if 0 \<le> b then NInf else PInf)"
| "divide_number PInf _ = NaN"
| "divide_number NInf _ = NaN"

definition inverse_number :: "number \<Rightarrow> number" where
  "inverse_number x = divide (Fin 1) x"

fun less_number :: "number \<Rightarrow> number \<Rightarrow> bool" where
  "less_number (Fin a) (Fin b) = (a < b)"
| "less_number NaN _ = False"
| "less_number _ NaN = False"
| "less_number _ NInf = False"
| "less_number PInf _ = False"
| "less_number NInf _ = True"
| "less_number _ PInf = True"

fun less_eq_number :: "number \<Rightarrow> number \<Rightarrow> bool" where
  "less_eq_number (Fin a) (Fin b) = (a \<le> b)"
| "less_eq_number NaN _ = False"
| "less_eq_number _ NaN = False"
| "less_eq_number NInf _ = True"
| "less_eq_number _ PInf = True"
| "less_eq_number _ NInf = False"
| "less_eq_number PInf _ = False"

instance ..

end

text \<open>\<open>truthy x\<close> is the value of \<open>x\<close> where the source uses it as a condition.\<close>

fun truthy :: "number \<Rightarrow> bool" where
  "truthy (Fin a) = (a \<noteq> 0)"
| "truthy NaN = False"
| "truthy _ = True"

text \<open>\<open>Math.max\<close> of two numbers: NaN as soon as one of them is.\<close>

fun Math_max :: "number \<Rightarrow> number \<Rightarrow> number" where
  "Math_max NaN _ = NaN"
| "Math_max _ NaN = NaN"
| "Math_max a b = (if a < b then b else a)"

fun Math_sqrt :: "number \<Rightarrow> number" where
  "Math_sqrt (Fin a) = (if a < 0 then NaN else Fin (sqrt a))"
| "Math_sqrt PInf = PInf"
| "Math_sqrt _ = NaN"

text \<open>\<open>Math.round\<close>: to the nearest integer, a half going up.\<close>

fun Math_round :: "number \<Rightarrow> number" where
  "Math_round (Fin a) = Fin (of_int \<lfloor>a + 1 / 2\<rfloor>)"
| "Math_round x = x"

section \<open>Input data\<close>

text \<open>
  The interface \<open>Data\<close>: a size, an optional list of children and an optional
  caption. The selectors carry a prime where the source's name is a constant of HOL.
\<close>

datatype Data = Data (size': number) (children: "Data list option") (caption: "string option")

datatype error = TypeError

section \<open>selectSpan\<close>

text \<open>
  The loop of \<open>selectSpan\<close>, one call per test of \<open>end < children.length\<close>. Its
  arguments after \<open>space\<close> are the locals \<open>smin\<close>, \<open>smax\<close>, \<open>sum\<close>,
  \<open>lastScore\<close> and \<open>end\<close>; it returns \<open>end\<close>, \<open>sum\<close> and \<open>lastScore\<close> as they
  are when the loop is left. \<open>size > smax\<close> is written \<open>smax < sz\<close>, and
  \<open>score > lastScore\<close> is written \<open>lastScore < score\<close>.
\<close>

function selectSpan_loop ::
  "Data list \<Rightarrow> number \<Rightarrow> number \<Rightarrow> number \<Rightarrow> number \<Rightarrow> number \<Rightarrow> nat \<Rightarrow> nat \<times> number \<times> number"
where
  "selectSpan_loop cs space smin smax sum_s lastScore end' =
     (if end' < length cs then
        let sz = size' (cs ! end');
            smin = (if sz < smin then sz else smin);
            smax = (if smax < sz then sz else smax);
            nextSum = sum_s + sz;
            score = Math_max (smax * space * space / (nextSum * nextSum))
                             (nextSum * nextSum / (smin * space * space))
        in if truthy lastScore \<and> lastScore < score then (end', sum_s, lastScore)
           else selectSpan_loop cs space smin smax nextSum score (end' + 1)
      else (end', sum_s, lastScore))"
  by pat_completeness auto
termination
  by (relation "measure (\<lambda>(cs, space, smin, smax, sum_s, lastScore, end'). length cs - end')") auto

declare selectSpan_loop.simps [simp del]

text \<open>
  \<open>selectSpan\<close> itself. Reading \<open>children[start].size\<close> with \<open>start\<close> out of range
  is a TypeError in the source.
\<close>

definition selectSpan :: "Data list \<Rightarrow> number \<Rightarrow> nat \<Rightarrow> error + nat \<times> number" where
  "selectSpan cs space start =
     (if start < length cs then
        let smin = size' (cs ! start);
            smax = smin;
            (end', sum_s, lastScore) = selectSpan_loop cs space smin smax (Fin 0) (Fin 0) start
        in Inr (end', sum_s)
      else Inl TypeError)"


text \<open>The loop only moves \<open>end\<close> forward, and never past the end of the list.\<close>

lemma selectSpan_loop_end:
  "selectSpan_loop cs space smin smax s ls e = (e', s', ls') \<Longrightarrow> e \<le> e' \<and> (e \<le> length cs \<longrightarrow> e' \<le> length cs)"
proof (induction cs space smin smax s ls e rule: selectSpan_loop.induct)
  case (1 cs space smin smax s ls e)
  show ?case
  proof (cases "e < length cs")
    case False
    with "1.prems" show ?thesis by (simp add: selectSpan_loop.simps[of cs space smin smax s ls e])
  next
    case True
    with "1.prems" "1.IH" show ?thesis
      by (simp add: selectSpan_loop.simps[of cs space smin smax s ls e] Let_def split: if_splits) fastforce+
  qed
qed

lemma selectSpan_bounds:
  assumes "selectSpan cs space start = Inr (e, s)"
  shows "start < e \<and> e \<le> length cs"
proof -
  from assms have lt: "start < length cs"
    by (simp add: selectSpan_def split: if_splits)
  with assms obtain smin smax s0 ls0 ls where
    "selectSpan_loop cs space smin smax s0 ls0 (start + 1) = (e, s, ls)"
    by (auto simp: selectSpan_def selectSpan_loop.simps[of cs space _ _ _ _ start] Let_def split: prod.splits)
  from selectSpan_loop_end[OF this] lt show ?thesis by simp
qed

section \<open>layout\<close>

text \<open>
  The options \<open>layout\<close> reads: the padding (top, right, bottom, left) and the
  spacing. \<open>createNode\<close> builds the element of a node; here the element is the
  value \<open>Dom\<close> below, which keeps the data and the level it was created for.
\<close>

record Options =
  getPadding :: "number \<times> number \<times> number \<times> number"
  getSpacing :: number

text \<open>\<open>px x\<close> is \<open>Math.round(x) + 'px'\<close>: the rounded number, tagged as pixels.\<close>

datatype px = Px number

definition px :: "number \<Rightarrow> px" where
  "px x = Px (Math_round x)"

text \<open>
  An element appended to its container: the node and level given to \<open>createNode\<close>,
  the four style fields \<open>layout\<close> sets, and the elements appended to it by the
  recursive call. The fields \<open>raw_x\<close>, \<open>raw_y\<close>, \<open>raw_width\<close> and
  \<open>raw_height\<close> keep the locals \<open>x\<close>, \<open>y\<close>, \<open>widthPx\<close> and \<open>heightPx\<close>
  of the source as they are when the element is created, before the spacing is
  subtracted and the result rounded.
\<close>

datatype Dom = Dom (node: Data) (level: nat)
  (raw_x: number) (raw_y: number) (raw_width: number) (raw_height: number)
  (style_left: px) (style_width: px) (style_top: px) (style_height: px)
  (childNodes: "Dom list")

text \<open>
  \<open>layout\<close> with its two loops: \<open>layout_strips\<close> is the loop over \<open>start\<close>
  (one call per test of \<open>start < children.length\<close>, with the local \<open>y\<close>), and
  \<open>layout_row\<close> the loop over \<open>i\<close> (with the local \<open>x\<close>). The result is the
  list of elements appended to the container, in order, or the error raised. The
  container itself is not an argument: nothing is read from it.

  Names: \<open>d\<close> is the source's \<open>data\<close>, \<open>cs\<close> its \<open>children\<close>, \<open>lvl\<close> its
  \<open>level\<close>, \<open>total'\<close> its \<open>total\<close>, \<open>end'\<close> and \<open>sum_s\<close> the \<open>end\<close> and the
  \<open>sum\<close> that \<open>selectSpan\<close> returns. The cutoff \<open>0.1\<close> is the real number
  \<open>1 / 10\<close>.
\<close>

function layout :: "Options \<Rightarrow> Data \<Rightarrow> nat \<Rightarrow> number \<Rightarrow> number \<Rightarrow> error + Dom list"
  and layout_strips ::
    "Options \<Rightarrow> Data list \<Rightarrow> number \<Rightarrow> nat \<Rightarrow> number \<Rightarrow> number \<Rightarrow> number \<Rightarrow> nat \<Rightarrow> number
       \<Rightarrow> error + Dom list"
  and layout_row ::
    "Options \<Rightarrow> Data list \<Rightarrow> nat \<Rightarrow> number \<Rightarrow> number \<Rightarrow> number \<Rightarrow> number \<Rightarrow> nat \<Rightarrow> nat \<Rightarrow> number
       \<Rightarrow> error + Dom list"
where
  "layout opts d lvl width height =
     (case children d of
        None \<Rightarrow> Inr []
      | Some cs \<Rightarrow>
          let total' = size' d;
              x1 = Fin 0; y1 = Fin 0; x2 = width; y2 = height;
              (p0, p1, p2, p3) = getPadding opts;
              y1 = y1 + p0;
              x2 = x2 - p1;
              y2 = y2 - p2;
              x1 = x1 + p3
          in if x2 - x1 < Fin 40 then Inr []
             else if y2 - y1 < Fin 100 then Inr []
             else let scale = Math_sqrt (total' / ((x2 - x1) * (y2 - y1)))
                  in layout_strips opts cs total' lvl x1 x2 scale 0 y1)"
| "layout_strips opts cs total' lvl x1 x2 scale start y =
     (if start < length cs then
        let space = scale * (x2 - x1) in
        (case selectSpan cs space start of
           Inl e \<Rightarrow> Inl e
         | Inr (end', sum_s) \<Rightarrow>
             if sum_s / total' < Fin (1 / 10) then Inr []
             else
               let height = sum_s / space;
                   heightPx = height / scale
               in (case layout_row opts cs lvl scale y height heightPx start end' x1 of
                     Inl e \<Rightarrow> Inl e
                   | Inr row \<Rightarrow>
                       (case layout_strips opts cs total' lvl x1 x2 scale end' (y + heightPx) of
                          Inl e \<Rightarrow> Inl e
                        | Inr rest \<Rightarrow> Inr (row @ rest))))
      else Inr [])"
| "layout_row opts cs lvl scale y height heightPx i end' x =
     (if i < end' then
        if i < length cs then
          let sz = size' (cs ! i);
              width = sz / height;
              widthPx = width / scale;
              spacing = getSpacing opts
          in (case layout opts (cs ! i) (lvl + 1) (widthPx - Fin 2) (heightPx - Fin 2) of
                Inl e \<Rightarrow> Inl e
              | Inr sub \<Rightarrow>
                  (case layout_row opts cs lvl scale y height heightPx (i + 1) end' (x + widthPx) of
                     Inl e \<Rightarrow> Inl e
                   | Inr rest \<Rightarrow>
                       Inr (Dom (cs ! i) (lvl + 1) x y widthPx heightPx
                              (px x) (px (widthPx - spacing)) (px y) (px (heightPx - spacing))
                              sub # rest)))
        else Inl TypeError
      else Inr [])"
  by pat_completeness auto
termination
proof (relation "inv_image (less_than <*lex*> less_than)
    (case_sum (\<lambda>(opts, d, lvl, width, height). (size d, 0))
      (case_sum
         (\<lambda>(opts, cs, total', lvl, x1, x2, scale, start, y).
            (size_list size cs, 2 * (length cs - start) + 1))
         (\<lambda>(opts, cs, lvl, scale, y, height, heightPx, i, end', x).
            (size_list size cs, 2 * (length cs - i)))))", goal_cases)
  case 1
  show ?case by (intro wf_inv_image wf_lex_prod wf_less_than)
next
  case (2 opts d lvl width height cs)
  then show ?case by (cases d) simp
next
  case 3
  then show ?case by simp
next
  case (4 opts cs total' lvl x1 x2 scale start y space r e' s)
  then show ?case using selectSpan_bounds by fastforce
next
  case (5 opts cs lvl scale y height heightPx i end' x)
  then have "size (cs ! i) \<le> size_list size cs"
    by (intro size_list_estimation'[of "cs ! i"]) simp_all
  with 5 show ?case by auto
next
  case 6
  then show ?case by simp
qed

declare layout.simps [simp del] layout_strips.simps [simp del] layout_row.simps [simp del]

text \<open>
  \<open>newOptions\<close>: no padding, no spacing. \<open>newCaptionOptions\<close>: 14 units of padding at
  the top, for the caption.
\<close>

definition newOptions :: Options where
  "newOptions = \<lparr>getPadding = (Fin 0, Fin 0, Fin 0, Fin 0), getSpacing = Fin 0\<rparr>"

definition newCaptionOptions :: Options where
  "newCaptionOptions = newOptions\<lparr>getPadding := (Fin 14, Fin 0, Fin 0, Fin 0)\<rparr>"

section \<open>The spans of selectSpan, in closed form\<close>

text \<open>
  The quantities of the algorithm as functions of the list of sizes of a span, to state
  what the loop computes: \<open>sizes cs start k\<close> are the sizes of the children at the
  indices \<open>start\<close> to \<open>k - 1\<close>; \<open>sum_numbers\<close> adds numbers up from the left,
  starting at \<open>0\<close>; \<open>span_min\<close> and \<open>span_max\<close> are the running minimum and
  maximum, with the comparisons of the source; \<open>score ws space\<close> is the score of the
  span of sizes \<open>ws\<close>, the larger of \<open>scoreFromMax\<close> and \<open>scoreFromMin\<close>.
\<close>

definition sizes :: "Data list \<Rightarrow> nat \<Rightarrow> nat \<Rightarrow> number list" where
  "sizes cs start k = map size' (take (k - start) (drop start cs))"

definition sum_numbers :: "number list \<Rightarrow> number" where
  "sum_numbers ws = foldl (+) (Fin 0) ws"

definition span_min :: "number list \<Rightarrow> number" where
  "span_min ws = foldl (\<lambda>m z. if z < m then z else m) (hd ws) ws"

definition span_max :: "number list \<Rightarrow> number" where
  "span_max ws = foldl (\<lambda>m z. if m < z then z else m) (hd ws) ws"

definition scoreFromMax :: "number list \<Rightarrow> number \<Rightarrow> number" where
  "scoreFromMax ws space = span_max ws * space * space / (sum_numbers ws * sum_numbers ws)"

definition scoreFromMin :: "number list \<Rightarrow> number \<Rightarrow> number" where
  "scoreFromMin ws space = sum_numbers ws * sum_numbers ws / (span_min ws * space * space)"

definition score :: "number list \<Rightarrow> number \<Rightarrow> number" where
  "score ws space = Math_max (scoreFromMax ws space) (scoreFromMin ws space)"

text \<open>
  \<open>rejected cs space start k\<close>: with the children from \<open>start\<close> to \<open>k - 1\<close> in
  the span, the candidate at index \<open>k\<close> is refused. A score has been recorded (the
  source tests that \<open>lastScore\<close> is truthy) and the score with the candidate is
  strictly greater.
\<close>

definition rejected :: "Data list \<Rightarrow> number \<Rightarrow> nat \<Rightarrow> nat \<Rightarrow> bool" where
  "rejected cs space start k \<longleftrightarrow>
     truthy (score (sizes cs start k) space) \<and>
     score (sizes cs start k) space < score (sizes cs start (Suc k)) space"


text \<open>
  Finite numbers and their values, to state the conditions on the input: \<open>isFinite\<close>
  as in JavaScript, \<open>val\<close> the real number a finite number stands for, and
  \<open>positive\<close> for a finite number greater than \<open>0\<close>.
\<close>

fun isFinite :: "number \<Rightarrow> bool" where
  "isFinite (Fin a) = True"
| "isFinite _ = False"

fun val :: "number \<Rightarrow> real" where
  "val (Fin a) = a"
| "val _ = 0"

definition positive :: "number \<Rightarrow> bool" where
  "positive w \<longleftrightarrow> isFinite w \<and> Fin 0 < w"


definition nonneg :: "number \<Rightarrow> bool" where
  "nonneg w \<longleftrightarrow> isFinite w \<and> Fin 0 \<le> w"

text \<open>The score of a span of finite sizes, in terms of their minimum, maximum and sum.\<close>

definition score_real :: "real \<Rightarrow> real \<Rightarrow> real \<Rightarrow> real \<Rightarrow> number" where
  "score_real m M S sp =
     Math_max (Fin (M * sp * sp) / Fin (S * S)) (Fin (S * S) / Fin (m * sp * sp))"

section \<open>The strips of layout\<close>

text \<open>
  \<open>content opts width height\<close> is the content rectangle \<open>(x1, y1, x2, y2)\<close> that
  \<open>layout\<close> computes from the padding.
\<close>

definition content :: "Options \<Rightarrow> number \<Rightarrow> number \<Rightarrow> number \<times> number \<times> number \<times> number" where
  "content opts width height =
     (let (p0, p1, p2, p3) = getPadding opts
      in (Fin 0 + p3, Fin 0 + p0, width - p1, height - p2))"

text \<open>
  \<open>placed opts lvl c x y widthPx heightPx dm\<close>: \<open>dm\<close> is the element that the loop over
  \<open>i\<close> builds for the child \<open>c\<close> when the locals are \<open>x\<close>, \<open>y\<close>, \<open>widthPx\<close> and
  \<open>heightPx\<close>, with what the recursive call appended to it.
\<close>

definition placed :: "Options \<Rightarrow> nat \<Rightarrow> Data \<Rightarrow> number \<Rightarrow> number \<Rightarrow> number \<Rightarrow> number \<Rightarrow> Dom \<Rightarrow> bool" where
  "placed opts lvl c x y widthPx heightPx dm \<longleftrightarrow>
     node dm = c \<and> level dm = lvl + 1 \<and>
     raw_x dm = x \<and> raw_y dm = y \<and> raw_width dm = widthPx \<and> raw_height dm = heightPx \<and>
     style_left dm = px x \<and> style_width dm = px (widthPx - getSpacing opts) \<and>
     style_top dm = px y \<and> style_height dm = px (heightPx - getSpacing opts) \<and>
     layout opts c (lvl + 1) (widthPx - Fin 2) (heightPx - Fin 2) = Inr (childNodes dm)"

text \<open>
  \<open>strip_starts cs total' space start\<close>: the values that \<open>start\<close> takes in the loop
  over the strips, from \<open>start\<close> on. The last one is where the loop is left: the
  length of the list, or the start of the first strip below the cutoff.
\<close>

function strip_starts :: "Data list \<Rightarrow> number \<Rightarrow> number \<Rightarrow> nat \<Rightarrow> nat list" where
  "strip_starts cs total' space start =
     start #
     (if start < length cs then
        (case selectSpan cs space start of
           Inl e \<Rightarrow> []
         | Inr (end', sum_s) \<Rightarrow>
             if sum_s / total' < Fin (1 / 10) then [] else strip_starts cs total' space end')
      else [])"
  by pat_completeness auto
termination
  by (relation "measure (\<lambda>(cs, total', space, start). length cs - start)")
     (use selectSpan_bounds in fastforce)+

declare strip_starts.simps [simp del]

text \<open>
  \<open>laid_out opts d width height cs x1 y1 x2 y2 t\<close>: the node \<open>d\<close> has the children
  \<open>cs\<close> and they are laid out: its content rectangle is finite, from \<open>(x1, y1)\<close> to
  \<open>(x2, y2)\<close>, it passes the two tests on its size, and the size \<open>t\<close> of the node is
  finite and strictly positive.
\<close>

definition laid_out ::
  "Options \<Rightarrow> Data \<Rightarrow> number \<Rightarrow> number \<Rightarrow> Data list \<Rightarrow> real \<Rightarrow> real \<Rightarrow> real \<Rightarrow> real \<Rightarrow> real \<Rightarrow> bool" where
  "laid_out opts d width height cs x1 y1 x2 y2 t \<longleftrightarrow>
     children d = Some cs \<and>
     content opts width height = (Fin x1, Fin y1, Fin x2, Fin y2) \<and>
     \<not> Fin x2 - Fin x1 < Fin 40 \<and> \<not> Fin y2 - Fin y1 < Fin 100 \<and>
     size' d = Fin t \<and> 0 < t"

text \<open>
  \<open>contained x1 y1 x2 y2 dm\<close>: the rectangle of the element \<open>dm\<close>, before the spacing
  is subtracted and before rounding, lies in the rectangle from \<open>(x1, y1)\<close> to
  \<open>(x2, y2)\<close>.
\<close>

definition contained :: "real \<Rightarrow> real \<Rightarrow> real \<Rightarrow> real \<Rightarrow> Dom \<Rightarrow> bool" where
  "contained x1 y1 x2 y2 dm \<longleftrightarrow>
     Fin x1 \<le> raw_x dm \<and> raw_x dm + raw_width dm \<le> Fin x2 \<and>
     Fin y1 \<le> raw_y dm \<and> raw_y dm + raw_height dm \<le> Fin y2"

text \<open>A node without children, for the examples.\<close>

definition leaf :: "real \<Rightarrow> Data" where
  "leaf w = Data (Fin w) None None"


text \<open>
  Options and trees for the examples: a padding of 98 at the top and 38 on the left; a
  node in a node; a node with three children.
\<close>

definition padded :: Options where
  "padded = \<lparr>getPadding = (Fin 98, Fin 0, Fin 0, Fin 38), getSpacing = Fin 0\<rparr>"

definition inner :: Data where
  "inner = Data (Fin 16000) (Some [leaf 16000]) None"

definition outer :: Data where
  "outer = Data (Fin 16000) (Some [inner]) None"

definition three :: Data where
  "three = Data (Fin 10000) (Some [leaf 6000, leaf 3500, leaf 500]) None"

definition four :: Data where
  "four = Data (Fin 10000) (Some [leaf 6000, leaf 2000, leaf 2000]) None"




section \<open>The arithmetic of doubles\<close>

text \<open>
  The numbers of the source are IEEE 754 doubles (binary64), and every operation of the
  source rounds its exact result to the nearest double. The functions \<open>selectSpan\<close> and
  \<open>layout\<close> above leave the rounding out. Their copies in this section have it:
  \<open>selectSpan_d\<close> and \<open>layout_d\<close> are the same translations of the source, with
  \<open>rnd\<close> applied to the result of every addition, subtraction, multiplication,
  division and square root, and with the double nearest to \<open>0.1\<close> as the cutoff. On
  numbers that are doubles they compute what the source computes. They serve to
  evaluate the source at inputs where the rounding, an overflow or an underflow decides.

  \<open>ties_even x\<close> is the integer nearest to \<open>x\<close>, the even one of the two when \<open>x\<close>
  is halfway. \<open>binary64 x\<close> is the double nearest to the real number \<open>x\<close>: with
  \<open>2 ^ e \<le> \<bar>x\<bar> < 2 ^ (e + 1)\<close>, a multiple of \<open>2 ^ (e - 52)\<close> (53 significant
  bits); below \<open>2 ^ - 1022\<close> a multiple of \<open>2 ^ - 1074\<close> (the subnormal numbers, and 0
  when \<open>x\<close> is too small); and an infinity when rounding reaches \<open>2 ^ 1024\<close>.
  \<open>rnd\<close> rounds a finite number and leaves the infinities and NaN as they are.

  One thing of the doubles is still left out: the sign of a zero. It shows only in a
  quotient whose divisor is the negative zero, and in none of the examples below.
\<close>

definition ties_even :: "real \<Rightarrow> int" where
  "ties_even x = (let f = \<lfloor>x\<rfloor> in
     if x - of_int f < 1 / 2 then f
     else if 1 / 2 < x - of_int f then f + 1
     else if even f then f else f + 1)"

definition binary64 :: "real \<Rightarrow> number" where
  "binary64 x = (if x = 0 then Fin 0
     else let e = max \<lfloor>log 2 \<bar>x\<bar>\<rfloor> (- 1022);
              q = 2 powi (e - 52);
              y = of_int (ties_even (\<bar>x\<bar> / q)) * q
          in if 2 powi 1024 \<le> y then (if 0 < x then PInf else NInf)
             else Fin (sgn x * y))"

fun rnd :: "number \<Rightarrow> number" where
  "rnd (Fin a) = binary64 a"
| "rnd x = x"

text \<open>
  \<open>selectSpan\<close> on doubles. The products and quotients of the two terms of the score
  are evaluated from the left, as in the source: \<open>smax * space * space\<close> is
  \<open>(smax * space) * space\<close>.
\<close>

function selectSpan_loop_d ::
  "Data list \<Rightarrow> number \<Rightarrow> number \<Rightarrow> number \<Rightarrow> number \<Rightarrow> number \<Rightarrow> nat \<Rightarrow> nat \<times> number \<times> number"
where
  "selectSpan_loop_d cs space smin smax sum_s lastScore end' =
     (if end' < length cs then
        let sz = size' (cs ! end');
            smin = (if sz < smin then sz else smin);
            smax = (if smax < sz then sz else smax);
            nextSum = rnd (sum_s + sz);
            score = Math_max
              (rnd (rnd (rnd (smax * space) * space) / rnd (nextSum * nextSum)))
              (rnd (rnd (nextSum * nextSum) / rnd (rnd (smin * space) * space)))
        in if truthy lastScore \<and> lastScore < score then (end', sum_s, lastScore)
           else selectSpan_loop_d cs space smin smax nextSum score (end' + 1)
      else (end', sum_s, lastScore))"
  by pat_completeness auto
termination
  by (relation "measure (\<lambda>(cs, space, smin, smax, sum_s, lastScore, end'). length cs - end')") auto

declare selectSpan_loop_d.simps [simp del]

definition selectSpan_d :: "Data list \<Rightarrow> number \<Rightarrow> nat \<Rightarrow> error + nat \<times> number" where
  "selectSpan_d cs space start =
     (if start < length cs then
        let smin = size' (cs ! start);
            smax = smin;
            (end', sum_s, lastScore) = selectSpan_loop_d cs space smin smax (Fin 0) (Fin 0) start
        in Inr (end', sum_s)
      else Inl TypeError)"

lemma selectSpan_loop_d_end:
  "selectSpan_loop_d cs space smin smax s ls e = (e', s', ls') \<Longrightarrow> e \<le> e' \<and> (e \<le> length cs \<longrightarrow> e' \<le> length cs)"
proof (induction cs space smin smax s ls e rule: selectSpan_loop_d.induct)
  case (1 cs space smin smax s ls e)
  show ?case
  proof (cases "e < length cs")
    case False
    with "1.prems" show ?thesis by (simp add: selectSpan_loop_d.simps[of cs space smin smax s ls e])
  next
    case True
    with "1.prems" "1.IH" show ?thesis
      by (simp add: selectSpan_loop_d.simps[of cs space smin smax s ls e] Let_def split: if_splits) fastforce+
  qed
qed

lemma selectSpan_d_bounds:
  assumes "selectSpan_d cs space start = Inr (e, s)"
  shows "start < e \<and> e \<le> length cs"
proof -
  from assms have lt: "start < length cs"
    by (simp add: selectSpan_d_def split: if_splits)
  with assms obtain smin smax s0 ls0 ls where
    "selectSpan_loop_d cs space smin smax s0 ls0 (start + 1) = (e, s, ls)"
    by (auto simp: selectSpan_d_def selectSpan_loop_d.simps[of cs space _ _ _ _ start] Let_def split: prod.splits)
  from selectSpan_loop_d_end[OF this] lt show ?thesis by simp
qed

text \<open>
  \<open>layout\<close> on doubles, with its two loops. \<open>Math.round\<close> gives an integer, which is a
  double: \<open>px\<close> needs no rounding of its own.
\<close>

function layout_d :: "Options \<Rightarrow> Data \<Rightarrow> nat \<Rightarrow> number \<Rightarrow> number \<Rightarrow> error + Dom list"
  and layout_strips_d ::
    "Options \<Rightarrow> Data list \<Rightarrow> number \<Rightarrow> nat \<Rightarrow> number \<Rightarrow> number \<Rightarrow> number \<Rightarrow> nat \<Rightarrow> number
       \<Rightarrow> error + Dom list"
  and layout_row_d ::
    "Options \<Rightarrow> Data list \<Rightarrow> nat \<Rightarrow> number \<Rightarrow> number \<Rightarrow> number \<Rightarrow> number \<Rightarrow> nat \<Rightarrow> nat \<Rightarrow> number
       \<Rightarrow> error + Dom list"
where
  "layout_d opts d lvl width height =
     (case children d of
        None \<Rightarrow> Inr []
      | Some cs \<Rightarrow>
          let total' = size' d;
              x1 = Fin 0; y1 = Fin 0; x2 = width; y2 = height;
              (p0, p1, p2, p3) = getPadding opts;
              y1 = rnd (y1 + p0);
              x2 = rnd (x2 - p1);
              y2 = rnd (y2 - p2);
              x1 = rnd (x1 + p3)
          in if rnd (x2 - x1) < Fin 40 then Inr []
             else if rnd (y2 - y1) < Fin 100 then Inr []
             else let scale = rnd (Math_sqrt (rnd (total' / rnd (rnd (x2 - x1) * rnd (y2 - y1)))))
                  in layout_strips_d opts cs total' lvl x1 x2 scale 0 y1)"
| "layout_strips_d opts cs total' lvl x1 x2 scale start y =
     (if start < length cs then
        let space = rnd (scale * rnd (x2 - x1)) in
        (case selectSpan_d cs space start of
           Inl e \<Rightarrow> Inl e
         | Inr (end', sum_s) \<Rightarrow>
             if rnd (sum_s / total') < binary64 (1 / 10) then Inr []
             else
               let height = rnd (sum_s / space);
                   heightPx = rnd (height / scale)
               in (case layout_row_d opts cs lvl scale y height heightPx start end' x1 of
                     Inl e \<Rightarrow> Inl e
                   | Inr row \<Rightarrow>
                       (case layout_strips_d opts cs total' lvl x1 x2 scale end' (rnd (y + heightPx)) of
                          Inl e \<Rightarrow> Inl e
                        | Inr rest \<Rightarrow> Inr (row @ rest))))
      else Inr [])"
| "layout_row_d opts cs lvl scale y height heightPx i end' x =
     (if i < end' then
        if i < length cs then
          let sz = size' (cs ! i);
              width = rnd (sz / height);
              widthPx = rnd (width / scale);
              spacing = getSpacing opts
          in (case layout_d opts (cs ! i) (lvl + 1) (rnd (widthPx - Fin 2)) (rnd (heightPx - Fin 2)) of
                Inl e \<Rightarrow> Inl e
              | Inr sub \<Rightarrow>
                  (case layout_row_d opts cs lvl scale y height heightPx (i + 1) end' (rnd (x + widthPx)) of
                     Inl e \<Rightarrow> Inl e
                   | Inr rest \<Rightarrow>
                       Inr (Dom (cs ! i) (lvl + 1) x y widthPx heightPx
                              (px x) (px (rnd (widthPx - spacing))) (px y) (px (rnd (heightPx - spacing)))
                              sub # rest)))
        else Inl TypeError
      else Inr [])"
  by pat_completeness auto
termination
proof (relation "inv_image (less_than <*lex*> less_than)
    (case_sum (\<lambda>(opts, d, lvl, width, height). (size d, 0))
      (case_sum
         (\<lambda>(opts, cs, total', lvl, x1, x2, scale, start, y).
            (size_list size cs, 2 * (length cs - start) + 1))
         (\<lambda>(opts, cs, lvl, scale, y, height, heightPx, i, end', x).
            (size_list size cs, 2 * (length cs - i)))))", goal_cases)
  case 1
  show ?case by (intro wf_inv_image wf_lex_prod wf_less_than)
next
  case (2 opts d lvl width height cs)
  then show ?case by (cases d) simp
next
  case 3
  then show ?case by simp
next
  case (4 opts cs total' lvl x1 x2 scale start y space r e' s)
  then show ?case using selectSpan_d_bounds by fastforce
next
  case (5 opts cs lvl scale y height heightPx i end' x)
  then have "size (cs ! i) \<le> size_list size cs"
    by (intro size_list_estimation'[of "cs ! i"]) simp_all
  with 5 show ?case by auto
next
  case 6
  then show ?case by simp
qed

declare layout_d.simps [simp del] layout_strips_d.simps [simp del] layout_row_d.simps [simp del]


definition tiny :: real where
  "tiny = 2 powi (- 538)"


section \<open>What the loop of selectSpan computes\<close>

lemma sizes_Suc:
  assumes "start \<le> k" "k < length cs"
  shows "sizes cs start (Suc k) = sizes cs start k @ [size' (cs ! k)]"
proof -
  from assms have "Suc k - start = Suc (k - start)" by simp
  moreover from assms have "k - start < length (drop start cs)" by simp
  ultimately show ?thesis
    using assms by (simp add: sizes_def take_Suc_conv_app_nth)
qed

lemma sizes_one:
  assumes "start < length cs"
  shows "sizes cs start (Suc start) = [size' (cs ! start)]"
  using sizes_Suc[of start start cs] assms by (simp add: sizes_def)

lemma sizes_nonempty: "start < k \<Longrightarrow> start < length cs \<Longrightarrow> sizes cs start k \<noteq> []"
  by (simp add: sizes_def)

lemma length_sizes: "k \<le> length cs \<Longrightarrow> length (sizes cs start k) = k - start"
  by (simp add: sizes_def)

lemma span_min_snoc:
  "ws \<noteq> [] \<Longrightarrow> span_min (ws @ [z]) = (if z < span_min ws then z else span_min ws)"
  by (simp add: span_min_def)

lemma span_max_snoc:
  "ws \<noteq> [] \<Longrightarrow> span_max (ws @ [z]) = (if span_max ws < z then z else span_max ws)"
  by (simp add: span_max_def)

lemma sum_numbers_snoc: "sum_numbers (ws @ [z]) = sum_numbers ws + z"
  by (simp add: sum_numbers_def)

lemma selectSpan_loop_step:
  assumes "start < k" "k < length cs"
  shows "selectSpan_loop cs space (span_min (sizes cs start k)) (span_max (sizes cs start k))
           (sum_numbers (sizes cs start k)) (score (sizes cs start k) space) k =
         (if rejected cs space start k
          then (k, sum_numbers (sizes cs start k), score (sizes cs start k) space)
          else selectSpan_loop cs space (span_min (sizes cs start (Suc k)))
                 (span_max (sizes cs start (Suc k))) (sum_numbers (sizes cs start (Suc k)))
                 (score (sizes cs start (Suc k)) space) (Suc k))"
proof -
  define ws where "ws = sizes cs start k"
  define z where "z = size' (cs ! k)"
  from assms have ne: "ws \<noteq> []" by (simp add: sizes_nonempty ws_def)
  from assms have snoc: "sizes cs start (Suc k) = ws @ [z]"
    by (simp add: sizes_Suc ws_def z_def)
  have sc: "score (ws @ [z]) space =
      Math_max ((if span_max ws < z then z else span_max ws) * space * space /
                  ((sum_numbers ws + z) * (sum_numbers ws + z)))
               ((sum_numbers ws + z) * (sum_numbers ws + z) /
                  ((if z < span_min ws then z else span_min ws) * space * space))"
    by (simp only: score_def scoreFromMax_def scoreFromMin_def span_min_snoc[OF ne]
        span_max_snoc[OF ne] sum_numbers_snoc)
  have "selectSpan_loop cs space (span_min ws) (span_max ws) (sum_numbers ws) (score ws space) k =
         (if truthy (score ws space) \<and> score ws space < score (ws @ [z]) space
          then (k, sum_numbers ws, score ws space)
          else selectSpan_loop cs space (span_min (ws @ [z])) (span_max (ws @ [z]))
                 (sum_numbers (ws @ [z])) (score (ws @ [z]) space) (Suc k))"
    using assms(2)
    by (subst selectSpan_loop.simps)
       (simp only: sc span_min_snoc[OF ne] span_max_snoc[OF ne] sum_numbers_snoc Let_def
          z_def[symmetric] if_True Suc_eq_plus1)
  then show ?thesis
    by (simp only: rejected_def snoc ws_def[symmetric])
qed

lemma selectSpan_loop_exit:
  assumes "\<not> e < length cs"
  shows "selectSpan_loop cs space smin smax s ls e = (e, s, ls)"
  using assms by (subst selectSpan_loop.simps) simp

lemma selectSpan_first:
  assumes "start < length cs"
  shows "selectSpan_loop cs space (size' (cs ! start)) (size' (cs ! start)) (Fin 0) (Fin 0) start =
         selectSpan_loop cs space (span_min (sizes cs start (Suc start)))
           (span_max (sizes cs start (Suc start))) (sum_numbers (sizes cs start (Suc start)))
           (score (sizes cs start (Suc start)) space) (Suc start)"
  using assms
  by (subst selectSpan_loop.simps)
     (simp add: Let_def sizes_one score_def scoreFromMax_def scoreFromMin_def
        span_min_def span_max_def sum_numbers_def)

lemma selectSpan_loop_char:
  assumes "selectSpan_loop cs space (span_min (sizes cs start k)) (span_max (sizes cs start k))
           (sum_numbers (sizes cs start k)) (score (sizes cs start k) space) k = (e, s, ls)"
      and "start < k" "k \<le> length cs"
  shows "k \<le> e \<and> e \<le> length cs \<and>
         s = sum_numbers (sizes cs start e) \<and> ls = score (sizes cs start e) space \<and>
         (\<forall>j. k \<le> j \<and> j < e \<longrightarrow> \<not> rejected cs space start j) \<and>
         (e < length cs \<longrightarrow> rejected cs space start e)"
  using assms
proof (induction n \<equiv> "length cs - k" arbitrary: k)
  case 0
  then have "\<not> k < length cs" by simp
  with "0.prems" show ?case
    by (auto simp: selectSpan_loop_exit)
next
  case (Suc n)
  then have lt: "k < length cs" by simp
  show ?case
  proof (cases "rejected cs space start k")
    case True
    with Suc.prems lt show ?thesis
      by (auto simp: selectSpan_loop_step)
  next
    case False
    with Suc.prems lt have
      run: "selectSpan_loop cs space (span_min (sizes cs start (Suc k)))
                 (span_max (sizes cs start (Suc k))) (sum_numbers (sizes cs start (Suc k)))
                 (score (sizes cs start (Suc k)) space) (Suc k) = (e, s, ls)"
      by (simp add: selectSpan_loop_step)
    have n: "n = length cs - Suc k" using Suc.hyps(2) by simp
    from Suc.hyps(1)[OF n run] lt Suc.prems(2)
    have ih: "Suc k \<le> e \<and> e \<le> length cs \<and>
         s = sum_numbers (sizes cs start e) \<and> ls = score (sizes cs start e) space \<and>
         (\<forall>j. Suc k \<le> j \<and> j < e \<longrightarrow> \<not> rejected cs space start j) \<and>
         (e < length cs \<longrightarrow> rejected cs space start e)" by simp
    have "\<not> rejected cs space start j" if "k \<le> j" "j < e" for j
    proof (cases "j = k")
      case True
      with False show ?thesis by simp
    next
      case False
      with that have "Suc k \<le> j" by simp
      with ih that show ?thesis by blast
    qed
    with ih show ?thesis by auto
  qed
qed

lemma selectSpan_char:
  assumes "start < length cs"
  shows "\<exists>e s ls.
           selectSpan_loop cs space (size' (cs ! start)) (size' (cs ! start)) (Fin 0) (Fin 0) start
             = (e, s, ls) \<and>
           selectSpan cs space start = Inr (e, s) \<and>
           start < e \<and> e \<le> length cs \<and>
           s = sum_numbers (sizes cs start e) \<and> ls = score (sizes cs start e) space \<and>
           (\<forall>j. start < j \<and> j < e \<longrightarrow> \<not> rejected cs space start j) \<and>
           (e < length cs \<longrightarrow> rejected cs space start e)"
proof -
  obtain e s ls where
    run: "selectSpan_loop cs space (size' (cs ! start)) (size' (cs ! start)) (Fin 0) (Fin 0) start
             = (e, s, ls)"
    by (cases "selectSpan_loop cs space (size' (cs ! start)) (size' (cs ! start)) (Fin 0) (Fin 0) start")
  then have sel: "selectSpan cs space start = Inr (e, s)"
    using assms by (simp add: selectSpan_def)
  from run assms have
    "selectSpan_loop cs space (span_min (sizes cs start (Suc start)))
           (span_max (sizes cs start (Suc start))) (sum_numbers (sizes cs start (Suc start)))
           (score (sizes cs start (Suc start)) space) (Suc start) = (e, s, ls)"
    by (simp add: selectSpan_first)
  from selectSpan_loop_char[OF this] assms
  have "Suc start \<le> e \<and> e \<le> length cs \<and>
         s = sum_numbers (sizes cs start e) \<and> ls = score (sizes cs start e) space \<and>
         (\<forall>j. Suc start \<le> j \<and> j < e \<longrightarrow> \<not> rejected cs space start j) \<and>
         (e < length cs \<longrightarrow> rejected cs space start e)" by simp
  with run sel show ?thesis by (auto simp: Suc_le_eq)
qed


section \<open>Scores of spans of finite sizes\<close>

text \<open>The scores without rounding, on finite sizes.\<close>

lemma isFinite_iff: "isFinite w \<longleftrightarrow> (\<exists>a. w = Fin a)"
  by (cases w) simp_all

lemma Fin_val: "isFinite w \<Longrightarrow> Fin (val w) = w"
  by (cases w) simp_all

lemma map_Fin_val: "\<forall>w\<in>set ws. isFinite w \<Longrightarrow> map Fin (map val ws) = ws"
  by (induction ws) (simp_all add: Fin_val)

lemma sum_numbers_Fin: "sum_numbers (map Fin rs) = Fin (sum_list rs)"
proof (induction rs rule: rev_induct)
  case Nil
  show ?case by (simp add: sum_numbers_def)
next
  case (snoc x xs)
  then show ?case by (simp add: sum_numbers_snoc)
qed

lemma if_less_Fin_min: "(if Fin x < Fin m then Fin x else Fin m) = Fin (min x m)"
  by (simp add: min_def)

lemma if_less_Fin_max: "(if Fin m < Fin x then Fin x else Fin m) = Fin (max x m)"
  by (simp add: max_def)

lemma span_min_Fin: "rs \<noteq> [] \<Longrightarrow> span_min (map Fin rs) = Fin (Min (set rs))"
proof (induction rs rule: rev_nonempty_induct)
  case (single x)
  show ?case by (simp add: span_min_def)
next
  case (snoc x xs)
  from snoc.hyps have "Min (set (xs @ [x])) = min x (Min (set xs))" by simp
  moreover from snoc have "span_min (map Fin (xs @ [x])) = Fin (min x (Min (set xs)))"
    by (simp only: map_append list.map span_min_snoc map_is_Nil_conv if_less_Fin_min
        not_False_eq_True)
  ultimately show ?case by simp
qed

lemma span_max_Fin: "rs \<noteq> [] \<Longrightarrow> span_max (map Fin rs) = Fin (Max (set rs))"
proof (induction rs rule: rev_nonempty_induct)
  case (single x)
  show ?case by (simp add: span_max_def)
next
  case (snoc x xs)
  from snoc.hyps have "Max (set (xs @ [x])) = max x (Max (set xs))" by simp
  moreover from snoc have "span_max (map Fin (xs @ [x])) = Fin (max x (Max (set xs)))"
    by (simp only: map_append list.map span_max_snoc map_is_Nil_conv if_less_Fin_max
        not_False_eq_True)
  ultimately show ?case by simp
qed

lemma sum_list_pos_real:
  fixes rs :: "real list"
  shows "rs \<noteq> [] \<Longrightarrow> \<forall>r\<in>set rs. 0 < r \<Longrightarrow> 0 < sum_list rs"
proof (induction rs)
  case Nil
  then show ?case by simp
next
  case (Cons r rs)
  then have "0 < r" "0 \<le> sum_list rs" by (auto intro: sum_list_nonneg less_imp_le)
  then show ?case by simp
qed

lemma score_Fin:
  assumes "rs \<noteq> []"
  shows "score (map Fin rs) (Fin sp) = score_real (Min (set rs)) (Max (set rs)) (sum_list rs) sp"
  using assms
  by (simp add: score_def scoreFromMax_def scoreFromMin_def sum_numbers_Fin span_min_Fin
      span_max_Fin score_real_def)

lemma score_real_positive:
  assumes "0 < m" "0 < M" "0 < S" "0 < sp"
  shows "\<exists>a. score_real m M S sp = Fin a \<and> 0 < a"
  using assms by (simp add: score_real_def)

lemma score_real_nonneg_cases:
  assumes "0 \<le> m" "m \<le> M" "M \<le> S" "0 < sp"
  shows "score_real m M S sp = NaN \<or> score_real m M S sp = PInf \<or>
         (\<exists>a. score_real m M S sp = Fin a \<and> 0 < a)"
proof (cases "S = 0")
  case True
  with assms have "M = 0" by simp
  with True show ?thesis by (simp add: score_real_def)
next
  case False
  with assms have S: "0 < S" by simp
  show ?thesis
  proof (cases "m = 0")
    case True
    with S assms show ?thesis by (simp add: score_real_def)
  next
    case False
    with assms have "0 < m" "0 < M" by simp_all
    with S assms(4) show ?thesis using score_real_positive by blast
  qed
qed

text \<open>The score of a span of finite, strictly positive sizes is finite and positive.\<close>

lemma score_positive:
  assumes "rs \<noteq> []" "\<forall>r\<in>set rs. 0 < r" "0 < sp"
  shows "\<exists>a. score (map Fin rs) (Fin sp) = Fin a \<and> 0 < a"
proof -
  from assms have S: "0 < sum_list rs" by (simp add: sum_list_pos_real)
  from assms have m: "0 < Min (set rs)" by simp
  from assms have M: "0 < Max (set rs)" by (simp add: Max_gr_iff) (meson last_in_set)
  show ?thesis
    unfolding score_Fin[OF assms(1)] using score_real_positive[OF m M S assms(3)] .
qed

text \<open>
  With finite sizes that are not negative, a score is NaN, infinite or finite and
  positive: never \<open>0\<close>. So a recorded score is falsy only when it is NaN, and then no
  comparison with it holds.
\<close>

lemma score_nonneg_cases:
  assumes "rs \<noteq> []" "\<forall>r\<in>set rs. 0 \<le> r" "0 < sp"
  shows "score (map Fin rs) (Fin sp) = NaN \<or> score (map Fin rs) (Fin sp) = PInf \<or>
         (\<exists>a. score (map Fin rs) (Fin sp) = Fin a \<and> 0 < a)"
proof -
  from assms have m: "0 \<le> Min (set rs)" by simp
  have "Max (set rs) \<in> set rs" using assms(1) by (intro Max_in) simp_all
  then have MS: "Max (set rs) \<le> sum_list rs"
    using assms(2) by (intro member_le_sum_list) auto
  have mM: "Min (set rs) \<le> Max (set rs)" using assms(1) by simp
  show ?thesis
    unfolding score_Fin[OF assms(1)] using score_real_nonneg_cases[OF m mM MS assms(3)] .
qed

text \<open>
  A zero after strictly positive sizes: the running minimum is 0, the sum is positive,
  and \<open>scoreFromMin\<close>, hence the score, is infinite.
\<close>

lemma score_zero_after_positive:
  assumes "rs \<noteq> []" "\<forall>r\<in>set rs. 0 < r" "0 < sp"
  shows "scoreFromMin (map Fin rs @ [Fin 0]) (Fin sp) = PInf \<and>
         score (map Fin rs @ [Fin 0]) (Fin sp) = PInf"
proof -
  define S where "S = sum_list rs"
  define m where "m = Min (set rs)"
  define M where "M = Max (set rs)"
  from assms have S: "0 < S" by (simp add: sum_list_pos_real S_def)
  from assms have m: "0 < m" by (simp add: m_def)
  have "m \<le> M" using assms(1) by (simp add: m_def M_def)
  with m have M: "0 < M" by simp
  have ne: "map Fin rs \<noteq> []" using assms(1) by simp
  have "span_min (map Fin rs @ [Fin 0]) = Fin 0"
    using m by (simp add: span_min_snoc[OF ne] span_min_Fin[OF assms(1)] m_def[symmetric])
  moreover have "span_max (map Fin rs @ [Fin 0]) = Fin M"
    using M by (simp add: span_max_snoc[OF ne] span_max_Fin[OF assms(1)] M_def[symmetric])
  moreover have "sum_numbers (map Fin rs @ [Fin 0]) = Fin S"
    by (simp add: sum_numbers_snoc sum_numbers_Fin S_def)
  ultimately show ?thesis
    using S M assms(3) by (simp add: score_def scoreFromMax_def scoreFromMin_def)
qed

lemma sizes_nth:
  assumes "k \<le> length cs" "i < k - start"
  shows "sizes cs start k ! i = size' (cs ! (start + i))"
  using assms by (simp add: sizes_def)

lemma sizes_range:
  assumes "k \<le> length cs" "w \<in> set (sizes cs start k)"
  shows "\<exists>j. start \<le> j \<and> j < k \<and> w = size' (cs ! j)"
proof -
  from assms(2) obtain i where i: "i < length (sizes cs start k)" and w: "w = sizes cs start k ! i"
    by (auto simp: in_set_conv_nth)
  from i assms(1) have ik: "i < k - start" by (simp add: length_sizes)
  with w assms(1) have "w = size' (cs ! (start + i))" by (simp add: sizes_nth)
  moreover from ik have "start \<le> start + i" "start + i < k" by simp_all
  ultimately show ?thesis by blast
qed

lemma positive_iff: "positive w \<longleftrightarrow> (\<exists>a. w = Fin a \<and> 0 < a)"
  by (cases w) (simp_all add: positive_def)

lemma positive_span:
  assumes "start < k" "k \<le> length cs"
      and "\<forall>j. start \<le> j \<and> j < k \<longrightarrow> positive (size' (cs ! j))"
  shows "\<exists>rs. rs \<noteq> [] \<and> (\<forall>r\<in>set rs. 0 < r) \<and> sizes cs start k = map Fin rs"
proof -
  have pos: "positive w" if "w \<in> set (sizes cs start k)" for w
    using sizes_range[OF assms(2) that] assms(3) by blast
  then have fin: "\<forall>w\<in>set (sizes cs start k). isFinite w" by (simp add: positive_def)
  have "sizes cs start k \<noteq> []" using assms(1,2) by (simp add: sizes_nonempty)
  then have "map val (sizes cs start k) \<noteq> []" by simp
  moreover have "\<forall>r\<in>set (map val (sizes cs start k)). 0 < r"
  proof
    fix r assume "r \<in> set (map val (sizes cs start k))"
    then obtain w where "w \<in> set (sizes cs start k)" "r = val w" by auto
    with pos[of w] show "0 < r" by (auto simp: positive_iff)
  qed
  moreover have "sizes cs start k = map Fin (map val (sizes cs start k))"
    using map_Fin_val[OF fin] by simp
  ultimately show ?thesis by blast
qed

lemma positive_span_score:
  assumes "start < k" "k \<le> length cs" "0 < sp"
      and "\<forall>j. start \<le> j \<and> j < k \<longrightarrow> positive (size' (cs ! j))"
  shows "\<exists>a. score (sizes cs start k) (Fin sp) = Fin a \<and> 0 < a"
proof -
  from positive_span[OF assms(1,2,4)] obtain rs where
    "rs \<noteq> []" "\<forall>r\<in>set rs. 0 < r" "sizes cs start k = map Fin rs" by blast
  with score_positive[of rs sp] assms(3) show ?thesis by simp
qed

lemma nonneg_iff: "nonneg w \<longleftrightarrow> (\<exists>a. w = Fin a \<and> 0 \<le> a)"
  by (cases w) (simp_all add: nonneg_def)

lemma nonneg_span:
  assumes "start < k" "k \<le> length cs"
      and "\<forall>j. start \<le> j \<and> j < k \<longrightarrow> nonneg (size' (cs ! j))"
  shows "\<exists>rs. rs \<noteq> [] \<and> (\<forall>r\<in>set rs. 0 \<le> r) \<and> sizes cs start k = map Fin rs"
proof -
  have pos: "nonneg w" if "w \<in> set (sizes cs start k)" for w
    using sizes_range[OF assms(2) that] assms(3) by blast
  then have fin: "\<forall>w\<in>set (sizes cs start k). isFinite w" by (simp add: nonneg_def)
  have "sizes cs start k \<noteq> []" using assms(1,2) by (simp add: sizes_nonempty)
  then have "map val (sizes cs start k) \<noteq> []" by simp
  moreover have "\<forall>r\<in>set (map val (sizes cs start k)). 0 \<le> r"
  proof
    fix r assume "r \<in> set (map val (sizes cs start k))"
    then obtain w where "w \<in> set (sizes cs start k)" "r = val w" by auto
    with pos[of w] show "0 \<le> r" by (auto simp: nonneg_iff)
  qed
  moreover have "sizes cs start k = map Fin (map val (sizes cs start k))"
    using map_Fin_val[OF fin] by simp
  ultimately show ?thesis by blast
qed

text \<open>
  On finite sizes that are not negative, a recorded score is falsy only when it is NaN,
  so a candidate is rejected exactly when its score is strictly greater than the score
  before it.
\<close>

lemma rejected_iff_greater:
  assumes "start < k" "k \<le> length cs" "0 < sp"
      and "\<forall>j. start \<le> j \<and> j < k \<longrightarrow> nonneg (size' (cs ! j))"
  shows "rejected cs (Fin sp) start k \<longleftrightarrow>
         score (sizes cs start k) (Fin sp) < score (sizes cs start (Suc k)) (Fin sp)"
proof -
  from nonneg_span[OF assms(1,2,4)] obtain rs where
    rs: "rs \<noteq> []" "\<forall>r\<in>set rs. 0 \<le> r" "sizes cs start k = map Fin rs" by blast
  from score_nonneg_cases[OF rs(1,2) assms(3)] rs(3)
  consider "score (sizes cs start k) (Fin sp) = NaN" | "score (sizes cs start k) (Fin sp) = PInf"
    | a where "score (sizes cs start k) (Fin sp) = Fin a" "0 < a" by auto
  then show ?thesis
    by cases (simp_all add: rejected_def)
qed

section \<open>What layout computes\<close>

text \<open>\<open>layout\<close> and its loops never raise.\<close>

lemma layout_returns:
  "\<exists>ds. layout opts d lvl width height = Inr ds"
  "\<exists>ds. layout_strips opts cs total' lvl x1 x2 scale start y = Inr ds"
  "end' \<le> length cs \<longrightarrow> (\<exists>ds. layout_row opts cs lvl scale y height heightPx i end' x = Inr ds)"
proof (induction opts d lvl width height and opts cs total' lvl x1 x2 scale start y
    and opts cs lvl scale y height heightPx i end' x rule: layout_layout_strips_layout_row.induct)
  case (1 opts d lvl width height)
  show ?case
    apply (subst layout.simps)
    using 1
    apply (auto simp: Let_def split: option.splits prod.splits)
    done
next
  case (2 opts cs total' lvl x1 x2 scale start y)
  show ?case
  proof (cases "start < length cs")
    case False
    then show ?thesis by (subst layout_strips.simps) simp
  next
    case True
    then obtain e w where sel: "selectSpan cs (scale * (x2 - x1)) start = Inr (e, w)"
      and e: "start < e" "e \<le> length cs"
      using selectSpan_char[OF True, of "scale * (x2 - x1)"] by blast
    show ?thesis
    proof (cases "w / total' < Fin (1 / 10)")
      case True
      with sel \<open>start < length cs\<close> show ?thesis
        by (subst layout_strips.simps) (simp add: Let_def)
    next
      case False
      from "2.IH"(1)[OF \<open>start < length cs\<close> refl sel refl False refl refl] e
      obtain row where row: "layout_row opts cs lvl scale y (w / (scale * (x2 - x1)))
          (w / (scale * (x2 - x1)) / scale) start e x1 = Inr row" by blast
      from "2.IH"(2)[OF \<open>start < length cs\<close> refl sel refl False refl refl row]
      obtain rest where "layout_strips opts cs total' lvl x1 x2 scale e
          (y + w / (scale * (x2 - x1)) / scale) = Inr rest" by blast
      with row sel False \<open>start < length cs\<close> show ?thesis
        by (subst layout_strips.simps) (simp add: Let_def)
    qed
  qed
next
  case (3 opts cs lvl scale y height heightPx i end' x)
  show ?case
  proof (intro impI)
    assume le: "end' \<le> length cs"
    show "\<exists>ds. layout_row opts cs lvl scale y height heightPx i end' x = Inr ds"
    proof (cases "i < end'")
      case False
      then show ?thesis by (subst layout_row.simps) simp
    next
      case True
      with le have il: "i < length cs" by simp
      from "3.IH"(1)[OF True il refl refl refl refl]
      obtain sub where sub: "layout opts (cs ! i) (lvl + 1) (size' (cs ! i) / height / scale - Fin 2)
          (heightPx - Fin 2) = Inr sub" by blast
      from "3.IH"(2)[OF True il refl refl refl refl sub] le
      obtain rest where "layout_row opts cs lvl scale y height heightPx (i + 1) end'
          (x + size' (cs ! i) / height / scale) = Inr rest" by blast
      with sub True il show ?thesis
        by (subst layout_row.simps) (simp add: Let_def)
    qed
  qed
qed

lemma layout_content:
  assumes "children d = Some cs" "content opts width height = (x1, y1, x2, y2)"
  shows "layout opts d lvl width height =
         (if x2 - x1 < Fin 40 then Inr []
          else if y2 - y1 < Fin 100 then Inr []
          else layout_strips opts cs (size' d) lvl x1 x2
                 (Math_sqrt (size' d / ((x2 - x1) * (y2 - y1)))) 0 y1)"
  using assms
  by (subst layout.simps) (auto simp: content_def Let_def split: prod.splits)

lemma layout_row_done:
  assumes "\<not> i < e"
  shows "layout_row opts cs lvl scale y height heightPx i e x = Inr []"
  using assms by (subst layout_row.simps) simp

lemma layout_row_step:
  assumes "i < e" "e \<le> length cs"
  shows "\<exists>dm rest.
           placed opts lvl (cs ! i) x y (size' (cs ! i) / height / scale) heightPx dm \<and>
           layout_row opts cs lvl scale y height heightPx (Suc i) e
             (x + size' (cs ! i) / height / scale) = Inr rest \<and>
           layout_row opts cs lvl scale y height heightPx i e x = Inr (dm # rest)"
proof -
  from assms have il: "i < length cs" by simp
  obtain sub where sub: "layout opts (cs ! i) (lvl + 1) (size' (cs ! i) / height / scale - Fin 2)
      (heightPx - Fin 2) = Inr sub"
    using layout_returns(1) by blast
  obtain rest where rest: "layout_row opts cs lvl scale y height heightPx (Suc i) e
      (x + size' (cs ! i) / height / scale) = Inr rest"
    using layout_returns(3) assms(2) by blast
  let ?dm = "Dom (cs ! i) (lvl + 1) x y (size' (cs ! i) / height / scale) heightPx
               (px x) (px (size' (cs ! i) / height / scale - getSpacing opts)) (px y)
               (px (heightPx - getSpacing opts)) sub"
  have "layout_row opts cs lvl scale y height heightPx i e x = Inr (?dm # rest)"
    using assms(1) il sub rest by (subst layout_row.simps) (simp add: Let_def)
  moreover have "placed opts lvl (cs ! i) x y (size' (cs ! i) / height / scale) heightPx ?dm"
    using sub by (simp add: placed_def)
  ultimately show ?thesis using rest by blast
qed

lemma layout_strips_done:
  assumes "\<not> start < length cs"
  shows "layout_strips opts cs total' lvl x1 x2 scale start y = Inr []"
  using assms by (subst layout_strips.simps) simp

lemma layout_strips_cut:
  assumes "start < length cs" "selectSpan cs (scale * (x2 - x1)) start = Inr (e, w)"
      and "w / total' < Fin (1 / 10)"
  shows "layout_strips opts cs total' lvl x1 x2 scale start y = Inr []"
  using assms by (subst layout_strips.simps) (simp add: Let_def)

lemma layout_strips_step:
  assumes "start < length cs" "selectSpan cs (scale * (x2 - x1)) start = Inr (e, w)"
      and "\<not> w / total' < Fin (1 / 10)"
  shows "\<exists>row rest.
           layout_row opts cs lvl scale y (w / (scale * (x2 - x1)))
             (w / (scale * (x2 - x1)) / scale) start e x1 = Inr row \<and>
           layout_strips opts cs total' lvl x1 x2 scale e (y + w / (scale * (x2 - x1)) / scale)
             = Inr rest \<and>
           layout_strips opts cs total' lvl x1 x2 scale start y = Inr (row @ rest)"
proof -
  from selectSpan_bounds[OF assms(2)] have "e \<le> length cs" by simp
  then obtain row where row: "layout_row opts cs lvl scale y (w / (scale * (x2 - x1)))
             (w / (scale * (x2 - x1)) / scale) start e x1 = Inr row"
    using layout_returns(3) by blast
  obtain rest where rest: "layout_strips opts cs total' lvl x1 x2 scale e
      (y + w / (scale * (x2 - x1)) / scale) = Inr rest"
    using layout_returns(2) by blast
  have "layout_strips opts cs total' lvl x1 x2 scale start y = Inr (row @ rest)"
    using assms row rest by (subst layout_strips.simps) (simp add: Let_def)
  with row rest show ?thesis by blast
qed

lemma sizes_Cons:
  assumes "i < k" "k \<le> length cs"
  shows "sizes cs i k = size' (cs ! i) # sizes cs (Suc i) k"
proof -
  from assms have "k - i = Suc (k - Suc i)" "i < length cs" by simp_all
  then show ?thesis
    by (simp add: sizes_def Cons_nth_drop_Suc[symmetric] del: drop_Suc)
qed

lemma sizes_empty [simp]: "sizes cs i i = []"
  by (simp add: sizes_def)

text \<open>
  The elements of one row: one for each child from \<open>i\<close> to \<open>e - 1\<close>, in order, each
  at the \<open>x\<close> reached by adding the widths of the children before it.
\<close>

lemma layout_row_char:
  assumes "i \<le> e" "e \<le> length cs"
      and "layout_row opts cs lvl scale y height heightPx i e x = Inr ds"
  shows "length ds = e - i \<and>
         (\<forall>k<e - i.
            placed opts lvl (cs ! (i + k))
              (foldl (+) x (map (\<lambda>z. z / height / scale) (sizes cs i (i + k)))) y
              (size' (cs ! (i + k)) / height / scale) heightPx (ds ! k))"
  using assms
proof (induction n \<equiv> "e - i" arbitrary: i x ds)
  case 0
  then have "\<not> i < e" by simp
  with "0.prems" have "ds = []" by (simp add: layout_row_done)
  with 0 show ?case by simp
next
  case (Suc n)
  then have lt: "i < e" by simp
  from layout_row_step[OF lt Suc.prems(2), of opts lvl x y height scale heightPx] Suc.prems(3)
  obtain dm rest where
    dm: "placed opts lvl (cs ! i) x y (size' (cs ! i) / height / scale) heightPx dm"
    and rest: "layout_row opts cs lvl scale y height heightPx (Suc i) e
             (x + size' (cs ! i) / height / scale) = Inr rest"
    and ds: "ds = dm # rest" by auto
  have n: "n = e - Suc i" using Suc.hyps(2) by simp
  from lt have le: "Suc i \<le> e" by simp
  note ih = Suc.hyps(1)[OF n le Suc.prems(2) rest]
  have "placed opts lvl (cs ! (i + k))
          (foldl (+) x (map (\<lambda>z. z / height / scale) (sizes cs i (i + k)))) y
          (size' (cs ! (i + k)) / height / scale) heightPx (ds ! k)" if "k < e - i" for k
  proof (cases k)
    case 0
    with dm ds show ?thesis by simp
  next
    case (Suc j)
    with that have j: "j < e - Suc i" by simp
    from that Suc Suc.prems(2) have "i < i + k" "i + k \<le> length cs" by simp_all
    then have "sizes cs i (i + k) = size' (cs ! i) # sizes cs (Suc i) (Suc i + j)"
      using Suc by (simp add: sizes_Cons)
    with ih j ds Suc show ?thesis by simp
  qed
  with ih ds Suc.hyps(2) show ?case by simp
qed

lemma layout_row_nodes:
  assumes "i \<le> e" "e \<le> length cs"
      and "layout_row opts cs lvl scale y height heightPx i e x = Inr ds"
  shows "map node ds = take (e - i) (drop i cs)"
proof (rule nth_equalityI)
  from layout_row_char[OF assms] have len: "length ds = e - i"
    and pl: "\<And>k. k < e - i \<Longrightarrow> node (ds ! k) = cs ! (i + k)"
    by (simp_all add: placed_def)
  from len assms show "length (map node ds) = length (take (e - i) (drop i cs))" by simp
  fix k assume "k < length (map node ds)"
  with len have k: "k < e - i" by simp
  with pl[OF k] len assms show "map node ds ! k = take (e - i) (drop i cs) ! k" by simp
qed

lemma layout_row_placed:
  assumes "i \<le> e" "e \<le> length cs"
      and "layout_row opts cs lvl scale y height heightPx i e x = Inr ds"
      and "dm \<in> set ds"
  shows "\<exists>c x' w. placed opts lvl c x' y w heightPx dm"
proof -
  from assms(4) obtain k where "k < length ds" "dm = ds ! k" by (auto simp: in_set_conv_nth)
  with layout_row_char[OF assms(1-3)] show ?thesis by auto
qed

lemma strip_starts_done:
  "\<not> start < length cs \<Longrightarrow> strip_starts cs total' space start = [start]"
  by (subst strip_starts.simps) simp

lemma strip_starts_span:
  assumes "start < length cs" "selectSpan cs space start = Inr (e, w)"
  shows "strip_starts cs total' space start =
         start # (if w / total' < Fin (1 / 10) then [] else strip_starts cs total' space e)"
  using assms by (subst strip_starts.simps) simp

text \<open>
  From a start of a strip that the loop reaches, the elements appended so far are those
  of the children before it, and the rest of the result is what the loop appends from
  there.
\<close>

lemma layout_strips_prefix:
  assumes "s \<in> set (strip_starts cs total' space start)" "space = scale * (x2 - x1)"
      and "start \<le> length cs"
  shows "\<exists>pre y' rest.
           layout_strips opts cs total' lvl x1 x2 scale s y' = Inr rest \<and>
           layout_strips opts cs total' lvl x1 x2 scale start y = Inr (pre @ rest) \<and>
           start \<le> s \<and> s \<le> length cs \<and>
           map node pre = take (s - start) (drop start cs)"
  using assms
proof (induction n \<equiv> "length cs - start" arbitrary: start y rule: less_induct)
  case less
  note prems = less.prems
  show ?case
  proof (cases "s = start")
    case True
    obtain rest where "layout_strips opts cs total' lvl x1 x2 scale start y = Inr rest"
      using layout_returns(2) by blast
    with True prems show ?thesis by auto
  next
    case False
    have lt: "start < length cs"
    proof (rule ccontr)
      assume "\<not> start < length cs"
      from strip_starts_done[OF this, of total' space] prems(1) False show False by simp
    qed
    then obtain e w where sel: "selectSpan cs space start = Inr (e, w)"
      using selectSpan_char[OF lt, of space] by blast
    from selectSpan_bounds[OF sel] have e: "start < e" "e \<le> length cs" by simp_all
    from strip_starts_span[OF lt sel, of total'] False prems(1) have pass: "\<not> w / total' < Fin (1 / 10)"
      and mem: "s \<in> set (strip_starts cs total' space e)"
      by (auto split: if_splits)
    from layout_strips_step[OF lt sel[unfolded prems(2)] pass, of opts lvl y]
    obtain row rest0 where
      row: "layout_row opts cs lvl scale y (w / (scale * (x2 - x1)))
             (w / (scale * (x2 - x1)) / scale) start e x1 = Inr row"
      and whole: "layout_strips opts cs total' lvl x1 x2 scale start y = Inr (row @ rest0)"
      and rest0: "layout_strips opts cs total' lvl x1 x2 scale e
             (y + w / (scale * (x2 - x1)) / scale) = Inr rest0"
      by blast
    from e lt have "length cs - e < length cs - start" by simp
    from less.hyps[OF this mem prems(2) e(2), of "y + w / (scale * (x2 - x1)) / scale"]
    obtain pre y' rest where
      r: "layout_strips opts cs total' lvl x1 x2 scale s y' = Inr rest"
      and w2: "layout_strips opts cs total' lvl x1 x2 scale e
             (y + w / (scale * (x2 - x1)) / scale) = Inr (pre @ rest)"
      and b: "e \<le> s" "s \<le> length cs"
      and n: "map node pre = take (s - e) (drop e cs)"
      by blast
    from layout_row_nodes[OF _ e(2) row] e(1)
    have nr: "map node row = take (e - start) (drop start cs)" by simp
    from e b have "take (s - start) (drop start cs) =
        take (e - start) (drop start cs) @ take (s - e) (drop (e - start) (drop start cs))"
      using take_add[of "e - start" "s - e" "drop start cs"] by simp
    with nr n e have "map node (row @ pre) = take (s - start) (drop start cs)" by simp
    moreover from whole rest0 w2
    have "layout_strips opts cs total' lvl x1 x2 scale start y = Inr ((row @ pre) @ rest)" by simp
    ultimately show ?thesis using r b e by (intro exI[of _ "row @ pre"] exI[of _ y'] exI[of _ rest]) simp
  qed
qed

text \<open>Every element the loop over the strips appends was placed by \<open>layout_row\<close>.\<close>

lemma layout_strips_placed:
  assumes "layout_strips opts cs total' lvl x1 x2 scale start y = Inr ds" "dm \<in> set ds"
  shows "\<exists>c x' y' w h. placed opts lvl c x' y' w h dm"
  using assms
proof (induction n \<equiv> "length cs - start" arbitrary: start y ds rule: less_induct)
  case less
  show ?case
  proof (cases "start < length cs")
    case False
    with less.prems show ?thesis by (simp add: layout_strips_done)
  next
    case True
    then obtain e w where sel: "selectSpan cs (scale * (x2 - x1)) start = Inr (e, w)"
      using selectSpan_char[OF True, of "scale * (x2 - x1)"] by blast
    from selectSpan_bounds[OF sel] have e: "start < e" "e \<le> length cs" by simp_all
    show ?thesis
    proof (cases "w / total' < Fin (1 / 10)")
      case True
      with less.prems \<open>start < length cs\<close> sel show ?thesis by (simp add: layout_strips_cut)
    next
      case False
      from layout_strips_step[OF True sel False, of opts lvl y] less.prems(1)
      obtain row rest where
        row: "layout_row opts cs lvl scale y (w / (scale * (x2 - x1)))
               (w / (scale * (x2 - x1)) / scale) start e x1 = Inr row"
        and rest: "layout_strips opts cs total' lvl x1 x2 scale e
               (y + w / (scale * (x2 - x1)) / scale) = Inr rest"
        and ds: "ds = row @ rest" by auto
      from less.prems(2) ds consider "dm \<in> set row" | "dm \<in> set rest" by auto
      then show ?thesis
      proof cases
        case 1
        from layout_row_placed[OF _ e(2) row 1] e(1) show ?thesis by (meson less_imp_le)
      next
        case 2
        from e True have "length cs - e < length cs - start" by simp
        from less.hyps[OF this rest 2] show ?thesis .
      qed
    qed
  qed
qed



section \<open>The geometry of the strips on finite numbers\<close>

text \<open>The widths, heights and positions without rounding, on finite numbers.\<close>

lemma foldl_plus_Fin: "foldl (+) (Fin a) (map Fin rs) = Fin (a + sum_list rs)"
  by (induction rs arbitrary: a) (simp_all add: add.assoc)

lemma divide_Fin_map:
  assumes "\<forall>w\<in>set ws. isFinite w" "hh \<noteq> 0" "sc \<noteq> 0"
  shows "map (\<lambda>z. z / Fin hh / Fin sc) ws = map Fin (map (\<lambda>z. val z / hh / sc) ws)"
  using assms(1)
proof (induction ws)
  case Nil
  show ?case by simp
next
  case (Cons w ws)
  then obtain a where "w = Fin a" by (auto simp: isFinite_iff)
  with Cons assms(2,3) show ?case by simp
qed

lemma sizes_finite:
  assumes "k \<le> length cs" "\<forall>j. i \<le> j \<and> j < k \<longrightarrow> isFinite (size' (cs ! j))"
  shows "\<forall>w\<in>set (sizes cs i k). isFinite w"
  using sizes_range[OF assms(1)] assms(2) by blast

lemma sizes_mono_finite:
  assumes "e \<le> length cs" "k \<le> e" "\<forall>j. i \<le> j \<and> j < e \<longrightarrow> isFinite (size' (cs ! j))"
  shows "\<forall>w\<in>set (sizes cs i k). isFinite w"
proof -
  from assms have "k \<le> length cs" "\<forall>j. i \<le> j \<and> j < k \<longrightarrow> isFinite (size' (cs ! j))" by auto
  then show ?thesis by (rule sizes_finite)
qed

text \<open>The row of a strip on finite numbers: positions and sizes as real numbers.\<close>

lemma layout_row_finite:
  assumes "i \<le> e" "e \<le> length cs"
      and "layout_row opts cs lvl (Fin sc) y (Fin hh) (Fin hp) i e (Fin x) = Inr ds"
      and "hh \<noteq> 0" "sc \<noteq> 0"
      and fin: "\<forall>j. i \<le> j \<and> j < e \<longrightarrow> isFinite (size' (cs ! j))"
  shows "length ds = e - i \<and>
         (\<forall>k<e - i.
            node (ds ! k) = cs ! (i + k) \<and>
            raw_x (ds ! k) = Fin (x + sum_list (map (\<lambda>z. val z / hh / sc) (sizes cs i (i + k)))) \<and>
            raw_width (ds ! k) = Fin (val (size' (cs ! (i + k))) / hh / sc) \<and>
            raw_y (ds ! k) = y \<and> raw_height (ds ! k) = Fin hp)"
proof -
  from layout_row_char[OF assms(1-3)] have len: "length ds = e - i"
    and pl: "\<And>k. k < e - i \<Longrightarrow> placed opts lvl (cs ! (i + k))
              (foldl (+) (Fin x) (map (\<lambda>z. z / Fin hh / Fin sc) (sizes cs i (i + k)))) y
              (size' (cs ! (i + k)) / Fin hh / Fin sc) (Fin hp) (ds ! k)"
    by simp_all
  have "node (ds ! k) = cs ! (i + k) \<and>
        raw_x (ds ! k) = Fin (x + sum_list (map (\<lambda>z. val z / hh / sc) (sizes cs i (i + k)))) \<and>
        raw_width (ds ! k) = Fin (val (size' (cs ! (i + k))) / hh / sc) \<and>
        raw_y (ds ! k) = y \<and> raw_height (ds ! k) = Fin hp" if k: "k < e - i" for k
  proof -
    from k have ik: "i + k \<le> e" "i + k < e" by simp_all
    from sizes_mono_finite[OF assms(2) ik(1) fin]
    have m: "map (\<lambda>z. z / Fin hh / Fin sc) (sizes cs i (i + k)) =
          map Fin (map (\<lambda>z. val z / hh / sc) (sizes cs i (i + k)))"
      using assms(4,5) by (rule divide_Fin_map)
    have x: "foldl (+) (Fin x) (map (\<lambda>z. z / Fin hh / Fin sc) (sizes cs i (i + k))) =
        Fin (x + sum_list (map (\<lambda>z. val z / hh / sc) (sizes cs i (i + k))))"
      unfolding m by (rule foldl_plus_Fin)
    from fin ik have "isFinite (size' (cs ! (i + k)))" by simp
    then obtain a where a: "size' (cs ! (i + k)) = Fin a"
      by (auto simp: isFinite_iff)
    with assms(4,5) have w: "size' (cs ! (i + k)) / Fin hh / Fin sc =
        Fin (val (size' (cs ! (i + k))) / hh / sc)" by simp
    from pl[OF k] show ?thesis unfolding x w by (simp add: placed_def)
  qed
  with len show ?thesis by blast
qed

text \<open>Real arithmetic of the scale: with area \<open>wd * ht\<close> and total \<open>t\<close>.\<close>

lemma scale_square:
  fixes t wd ht :: real
  assumes "0 < t" "0 < wd" "0 < ht"
  shows "0 < sqrt (t / (wd * ht)) \<and> sqrt (t / (wd * ht)) * sqrt (t / (wd * ht)) = t / (wd * ht)"
  using assms by simp

lemma strip_thickness:
  fixes t wd ht sc W :: real
  assumes "0 < t" "0 < wd" "0 < ht" "0 < sc" "sc * sc = t / (wd * ht)"
  shows "W / (sc * wd) / sc = W * ht / t"
proof -
  have "W / (sc * wd) / sc = W / ((sc * sc) * wd)" by (simp add: mult.assoc mult.left_commute)
  also have "\<dots> = W / (t / (wd * ht) * wd)" by (simp only: assms(5))
  also have "\<dots> = W * ht / t" using assms by (simp add: field_simps)
  finally show ?thesis .
qed

lemma strip_child_area:
  fixes t wd ht sc W z :: real
  assumes "0 < t" "0 < wd" "0 < ht" "0 < sc" "sc * sc = t / (wd * ht)" "W \<noteq> 0"
  shows "z / (W / (sc * wd)) / sc * (W / (sc * wd) / sc) = z / t * (wd * ht)"
proof -
  have "z / (W / (sc * wd)) / sc * (W / (sc * wd) / sc) = z / (sc * sc)"
    using assms by (simp add: field_simps)
  also have "\<dots> = z / t * (wd * ht)" using assms by (simp add: field_simps)
  finally show ?thesis .
qed

lemma strip_child_width:
  fixes wd sc W z :: real
  assumes "0 < wd" "0 < sc" "W \<noteq> 0"
  shows "z / (W / (sc * wd)) / sc = z / W * wd"
  using assms by (simp add: field_simps)

lemma laid_out_layout:
  assumes "laid_out opts d width height cs x1 y1 x2 y2 t"
  defines "sc \<equiv> sqrt (t / ((x2 - x1) * (y2 - y1)))"
  shows "layout opts d lvl width height =
           layout_strips opts cs (Fin t) lvl (Fin x1) (Fin x2) (Fin sc) 0 (Fin y1)"
    and "40 \<le> x2 - x1" and "100 \<le> y2 - y1" and "0 < sc"
    and "sc * sc = t / ((x2 - x1) * (y2 - y1))"
    and "Math_sqrt (size' d / ((Fin x2 - Fin x1) * (Fin y2 - Fin y1))) * (Fin x2 - Fin x1)
           = Fin (sc * (x2 - x1))"
    and "Math_sqrt (size' d / ((Fin x2 - Fin x1) * (Fin y2 - Fin y1))) = Fin sc"
proof -
  from assms(1) have ch: "children d = Some cs"
    and c: "content opts width height = (Fin x1, Fin y1, Fin x2, Fin y2)"
    and w: "\<not> Fin x2 - Fin x1 < Fin 40" and h: "\<not> Fin y2 - Fin y1 < Fin 100"
    and t: "size' d = Fin t" "0 < t"
    by (simp_all add: laid_out_def)
  from w show wd: "40 \<le> x2 - x1" by simp
  from h show ht: "100 \<le> y2 - y1" by simp
  from wd ht t have pos: "0 < t / ((x2 - x1) * (y2 - y1))" by simp
  then show sc: "0 < sc" by (simp add: sc_def)
  from wd ht t have "0 < x2 - x1" "0 < y2 - y1" by simp_all
  from scale_square[OF t(2) this] show "sc * sc = t / ((x2 - x1) * (y2 - y1))"
    by (simp add: sc_def)
  from wd ht have nz: "(x2 - x1) * (y2 - y1) \<noteq> 0" by simp
  from pos have "\<not> t / ((x2 - x1) * (y2 - y1)) < 0" by simp
  with nz t show sq: "Math_sqrt (size' d / ((Fin x2 - Fin x1) * (Fin y2 - Fin y1))) = Fin sc"
    by (simp add: sc_def)
  then show "Math_sqrt (size' d / ((Fin x2 - Fin x1) * (Fin y2 - Fin y1))) * (Fin x2 - Fin x1)
           = Fin (sc * (x2 - x1))" by simp
  from layout_content[OF ch c, of lvl] w h sq t
  show "layout opts d lvl width height =
           layout_strips opts cs (Fin t) lvl (Fin x1) (Fin x2) (Fin sc) 0 (Fin y1)" by simp
qed

lemma sum_list_divide_const:
  fixes f :: "'a \<Rightarrow> real"
  shows "sum_list (map (\<lambda>z. f z / a / b) zs) = sum_list (map f zs) / a / b"
  by (induction zs) (simp_all add: add_divide_distrib)

lemma sum_list_share:
  fixes f :: "'a \<Rightarrow> real"
  shows "sum_list (map (\<lambda>z. f z / t * c) zs) = sum_list (map f zs) / t * c"
  by (induction zs) (simp_all add: add_divide_distrib distrib_right)

lemma span_sum_finite:
  assumes "selectSpan cs space s = Inr (e, w)" "\<forall>c\<in>set cs. isFinite (size' c)"
  shows "w = Fin (sum_list (map val (sizes cs s e)))"
proof -
  from assms(1) have lt: "s < length cs" by (simp add: selectSpan_def split: if_splits)
  from selectSpan_char[OF lt, of space] assms(1)
  have w: "w = sum_numbers (sizes cs s e)" and e: "e \<le> length cs" by auto
  have "\<forall>x\<in>set (sizes cs s e). isFinite x"
  proof
    fix x assume "x \<in> set (sizes cs s e)"
    from sizes_range[OF e this] obtain j where j: "j < e" "x = size' (cs ! j)" by blast
    with e have "cs ! j \<in> set cs" by simp
    with assms(2) j show "isFinite x" by simp
  qed
  from map_Fin_val[OF this] have eq: "map Fin (map val (sizes cs s e)) = sizes cs s e" .
  have "sum_numbers (sizes cs s e) = sum_numbers (map Fin (map val (sizes cs s e)))"
    by (simp only: eq)
  also have "\<dots> = Fin (sum_list (map val (sizes cs s e)))" by (rule sum_numbers_Fin)
  finally show ?thesis using w by simp
qed

text \<open>
  The areas of the elements of a strip add up to the share of the strip in the content
  area.
\<close>

lemma strip_area:
  fixes t wd ht sc W :: real
  assumes "0 < t" "0 < wd" "0 < ht" "0 < sc" "sc * sc = t / (wd * ht)" "W \<noteq> 0"
      and "s \<le> e" "e \<le> length cs" "\<forall>c\<in>set cs. isFinite (size' c)"
      and "W = sum_list (map val (sizes cs s e))"
      and "layout_row opts cs lvl (Fin sc) y (Fin (W / (sc * wd))) (Fin (W / (sc * wd) / sc))
             s e (Fin x) = Inr row"
  shows "sum_numbers (map (\<lambda>dm. raw_width dm * raw_height dm) row) = Fin (W / t * (wd * ht))"
proof -
  let ?hh = "W / (sc * wd)"
  from assms have hh: "?hh \<noteq> 0" and sc: "sc \<noteq> 0" by simp_all
  from assms(9) assms(8) have fin: "\<forall>j. s \<le> j \<and> j < e \<longrightarrow> isFinite (size' (cs ! j))" by simp
  from layout_row_finite[OF assms(7,8,11) hh sc fin]
  have len: "length row = e - s"
    and el: "\<And>k. k < e - s \<Longrightarrow>
          raw_width (row ! k) = Fin (val (size' (cs ! (s + k))) / ?hh / sc) \<and>
          raw_height (row ! k) = Fin (?hh / sc)"
    by simp_all
  have "map (\<lambda>dm. raw_width dm * raw_height dm) row =
        map Fin (map (\<lambda>z. val z / t * (wd * ht)) (sizes cs s e))"
  proof (rule nth_equalityI)
    show "length (map (\<lambda>dm. raw_width dm * raw_height dm) row) =
          length (map Fin (map (\<lambda>z. val z / t * (wd * ht)) (sizes cs s e)))"
      using len assms(8) by (simp add: length_sizes)
    fix k assume "k < length (map (\<lambda>dm. raw_width dm * raw_height dm) row)"
    with len have k: "k < e - s" by simp
    from el[OF k] have "raw_width (row ! k) * raw_height (row ! k) =
        Fin (val (size' (cs ! (s + k))) / ?hh / sc * (?hh / sc))" by simp
    also have "\<dots> = Fin (val (size' (cs ! (s + k))) / t * (wd * ht))"
      by (simp only: strip_child_area[OF assms(1-6)])
    finally show "map (\<lambda>dm. raw_width dm * raw_height dm) row ! k =
          map Fin (map (\<lambda>z. val z / t * (wd * ht)) (sizes cs s e)) ! k"
      using k len assms(8) by (simp add: length_sizes sizes_nth)
  qed
  then have "sum_numbers (map (\<lambda>dm. raw_width dm * raw_height dm) row) =
      Fin (sum_list (map (\<lambda>z. val z / t * (wd * ht)) (sizes cs s e)))"
    by (simp only: sum_numbers_Fin)
  also have "sum_list (map (\<lambda>z. val z / t * (wd * ht)) (sizes cs s e)) = W / t * (wd * ht)"
    unfolding assms(10) by (rule sum_list_share)
  finally show ?thesis .
qed

lemma sizes_append:
  assumes "a \<le> b" "b \<le> c" "c \<le> length cs"
  shows "sizes cs a c = sizes cs a b @ sizes cs b c"
proof -
  from assms have "c - a = (b - a) + (c - b)" by simp
  then have "take (c - a) (drop a cs) =
      take (b - a) (drop a cs) @ take (c - b) (drop (b - a) (drop a cs))"
    by (simp only: take_add)
  with assms show ?thesis by (simp add: sizes_def)
qed

lemma sizes_nonneg:
  assumes "k \<le> length cs" "\<forall>c\<in>set cs. nonneg (size' c)"
  shows "\<forall>w\<in>set (sizes cs i k). nonneg w"
proof
  fix w assume "w \<in> set (sizes cs i k)"
  from sizes_range[OF assms(1) this] obtain j where j: "j < k" "w = size' (cs ! j)" by blast
  with assms(1) have "cs ! j \<in> set cs" by simp
  with assms(2) j show "nonneg w" by simp
qed

lemma sum_val_nonneg:
  assumes "\<forall>w\<in>set ws. nonneg w"
  shows "0 \<le> sum_list (map val ws)"
proof (rule sum_list_nonneg)
  fix r assume "r \<in> set (map val ws)"
  then obtain w where "w \<in> set ws" "r = val w" by auto
  with assms show "0 \<le> r" by (auto simp: nonneg_iff)
qed

lemma nonneg_isFinite: "nonneg w \<Longrightarrow> isFinite w"
  by (simp add: nonneg_def)

text \<open>The elements of a row lie between \<open>x1\<close> and \<open>x1 + wd\<close>.\<close>

lemma row_within:
  fixes wd sc W :: real
  assumes "0 < wd" "0 < sc" "0 < W" "s \<le> e" "e \<le> length cs"
      and nn: "\<forall>c\<in>set cs. nonneg (size' c)"
      and W: "W = sum_list (map val (sizes cs s e))"
      and row: "layout_row opts cs lvl (Fin sc) (Fin yy) (Fin (W / (sc * wd))) (Fin hp) s e (Fin x1)
             = Inr row"
      and dm: "dm \<in> set row"
  shows "Fin x1 \<le> raw_x dm \<and> raw_x dm + raw_width dm \<le> Fin (x1 + wd) \<and>
         raw_y dm = Fin yy \<and> raw_height dm = Fin hp"
proof -
  let ?hh = "W / (sc * wd)"
  from assms(1-3) have hh: "?hh \<noteq> 0" and sc: "sc \<noteq> 0" and W0: "W \<noteq> 0" by simp_all
  from nn assms(5) have fin: "\<forall>j. s \<le> j \<and> j < e \<longrightarrow> isFinite (size' (cs ! j))"
    by (simp add: nonneg_isFinite)
  from layout_row_finite[OF assms(4,5) row hh sc fin]
  have len: "length row = e - s"
    and el: "\<And>k. k < e - s \<Longrightarrow>
          raw_x (row ! k) = Fin (x1 + sum_list (map (\<lambda>z. val z / ?hh / sc) (sizes cs s (s + k)))) \<and>
          raw_width (row ! k) = Fin (val (size' (cs ! (s + k))) / ?hh / sc) \<and>
          raw_y (row ! k) = Fin yy \<and> raw_height (row ! k) = Fin hp"
    by simp_all
  from dm obtain k where k: "k < length row" and dmk: "dm = row ! k"
    by (auto simp: in_set_conv_nth)
  with len have ke: "k < e - s" by simp
  define P where "P = sum_list (map val (sizes cs s (s + k)))"
  define z where "z = val (size' (cs ! (s + k)))"
  from ke assms(5) have b: "s \<le> s + k" "s + k \<le> length cs" "s + k < length cs"
    "Suc (s + k) \<le> e" by simp_all
  have P0: "0 \<le> P" unfolding P_def by (rule sum_val_nonneg[OF sizes_nonneg[OF b(2) nn]])
  have "nonneg (size' (cs ! (s + k)))" using nn b(3) by simp
  then have z0: "0 \<le> z" and zf: "size' (cs ! (s + k)) = Fin z" by (auto simp: nonneg_iff z_def)
  have "sizes cs s (Suc (s + k)) = sizes cs s (s + k) @ [size' (cs ! (s + k))]"
    using b by (intro sizes_Suc) simp_all
  then have Pz: "sum_list (map val (sizes cs s (Suc (s + k)))) = P + z"
    by (simp add: P_def z_def)
  have "sizes cs s e = sizes cs s (Suc (s + k)) @ sizes cs (Suc (s + k)) e"
    using b assms(5) by (intro sizes_append) simp_all
  then have "W = (P + z) + sum_list (map val (sizes cs (Suc (s + k)) e))"
    using Pz by (simp add: W)
  moreover have "0 \<le> sum_list (map val (sizes cs (Suc (s + k)) e))"
    by (rule sum_val_nonneg[OF sizes_nonneg[OF assms(5) nn]])
  ultimately have PzW: "P + z \<le> W" by simp
  from el[OF ke] have
    rx: "raw_x dm = Fin (x1 + sum_list (map (\<lambda>z. val z / ?hh / sc) (sizes cs s (s + k))))"
    and rw: "raw_width dm = Fin (z / ?hh / sc)"
    and ry: "raw_y dm = Fin yy" and rh: "raw_height dm = Fin hp"
    unfolding dmk z_def by blast+
  have "sum_list (map (\<lambda>z. val z / ?hh / sc) (sizes cs s (s + k))) = P / ?hh / sc"
    unfolding P_def by (rule sum_list_divide_const)
  also have "\<dots> = P / W * wd" by (rule strip_child_width[OF assms(1,2) W0])
  finally have sx: "sum_list (map (\<lambda>z. val z / ?hh / sc) (sizes cs s (s + k))) = P / W * wd" .
  have x: "raw_x dm = Fin (x1 + P / W * wd)" unfolding rx sx ..
  have w: "raw_width dm = Fin (z / W * wd)"
    unfolding rw by (simp only: strip_child_width[OF assms(1,2) W0])
  have "0 \<le> P / W * wd" using P0 assms(1,3) by simp
  moreover have "P / W * wd + z / W * wd \<le> wd"
  proof -
    have "P / W * wd + z / W * wd = (P + z) / W * wd" by (simp add: add_divide_distrib distrib_right)
    also have "\<dots> \<le> 1 * wd"
      using PzW assms(1,3) by (intro mult_right_mono) simp_all
    finally show ?thesis by simp
  qed
  ultimately show ?thesis unfolding x w ry rh by (simp add: add.assoc)
qed

lemma sizes_all: "sizes cs 0 (length cs) = map size' cs"
  by (simp add: sizes_def)

lemma sum_val_mono:
  assumes "a \<le> b" "b \<le> length cs" "\<forall>c\<in>set cs. nonneg (size' c)"
  shows "sum_list (map val (sizes cs 0 a)) \<le> sum_list (map val (sizes cs 0 b))"
proof -
  from sizes_append[of 0 a b cs] assms(1,2)
  have "sizes cs 0 b = sizes cs 0 a @ sizes cs a b" by simp
  moreover have "0 \<le> sum_list (map val (sizes cs a b))"
    by (rule sum_val_nonneg[OF sizes_nonneg[OF assms(2,3)]])
  ultimately show ?thesis by simp
qed

text \<open>
  The loop over the strips, started at \<open>start\<close> with \<open>y\<close> at the height that the
  children before \<open>start\<close> take, appends only elements inside the content rectangle.
\<close>

lemma strips_contained:
  fixes t wd ht sc :: real
  assumes "0 < t" "0 < wd" "0 < ht" "0 < sc" "sc * sc = t / (wd * ht)"
      and wd: "wd = x2 - x1" and ht: "ht = y2 - y1"
      and nn: "\<forall>c\<in>set cs. nonneg (size' c)"
      and tot: "sum_list (map val (sizes cs 0 (length cs))) \<le> t"
      and "start \<le> length cs"
      and "layout_strips opts cs (Fin t) lvl (Fin x1) (Fin x2) (Fin sc) start
             (Fin (y1 + sum_list (map val (sizes cs 0 start)) * ht / t)) = Inr ds"
      and "dm \<in> set ds"
  shows "contained x1 y1 x2 y2 dm"
  using assms(10-12)
proof (induction n \<equiv> "length cs - start" arbitrary: start ds rule: less_induct)
  case less
  let ?S = "\<lambda>k. sum_list (map val (sizes cs 0 k))"
  let ?yy = "y1 + ?S start * ht / t"
  show ?case
  proof (cases "start < length cs")
    case False
    with less.prems show ?thesis by (simp add: layout_strips_done)
  next
    case True
    then obtain e w where sel: "selectSpan cs (Fin sc * (Fin x2 - Fin x1)) start = Inr (e, w)"
      using selectSpan_char[OF True, of "Fin sc * (Fin x2 - Fin x1)"] by blast
    from selectSpan_bounds[OF sel] have e: "start < e" "e \<le> length cs" by simp_all
    then have se: "start \<le> e" by simp
    define W where "W = sum_list (map val (sizes cs start e))"
    from nn have fin: "\<forall>c\<in>set cs. isFinite (size' c)" by (simp add: nonneg_isFinite)
    from span_sum_finite[OF sel fin] have w: "w = Fin W" by (simp add: W_def)
    show ?thesis
    proof (cases "w / Fin t < Fin (1 / 10)")
      case True
      with less.prems \<open>start < length cs\<close> sel show ?thesis by (simp add: layout_strips_cut)
    next
      case False
      with w assms(1) have share: "\<not> W / t < 1 / 10" by simp
      have W0: "0 < W"
      proof (rule ccontr)
        assume "\<not> 0 < W"
        then have "W / t \<le> 0" using assms(1) by (simp add: divide_nonpos_pos)
        moreover have "(0::real) < 1 / 10" by simp
        ultimately have "W / t < 1 / 10" by (rule le_less_trans)
        with share show False ..
      qed
      from layout_strips_step[OF True sel False, of opts lvl "Fin ?yy"] less.prems(2)
      obtain row rest where
        row: "layout_row opts cs lvl (Fin sc) (Fin ?yy) (w / (Fin sc * (Fin x2 - Fin x1)))
               (w / (Fin sc * (Fin x2 - Fin x1)) / Fin sc) start e (Fin x1) = Inr row"
        and rest: "layout_strips opts cs (Fin t) lvl (Fin x1) (Fin x2) (Fin sc) e
               (Fin ?yy + w / (Fin sc * (Fin x2 - Fin x1)) / Fin sc) = Inr rest"
        and ds: "ds = row @ rest" by auto
      from assms(2,4) have nz: "sc * wd \<noteq> 0" "sc \<noteq> 0" by simp_all
      with w have hh: "w / (Fin sc * (Fin x2 - Fin x1)) = Fin (W / (sc * wd))"
        by (simp add: wd)
      from nz have "Fin (W / (sc * wd)) / Fin sc = Fin (W / (sc * wd) / sc)" by simp
      then have hp: "Fin (W / (sc * wd)) / Fin sc = Fin (W * ht / t)"
        by (simp only: strip_thickness[OF assms(1-5)])
      from sizes_append[of 0 start e cs] se e(2)
      have Se: "?S e = ?S start + W" by (simp add: W_def)
      have S0: "0 \<le> ?S start"
        by (rule sum_val_nonneg[OF sizes_nonneg[OF less.prems(1) nn]])
      from sum_val_mono[of e "length cs" cs] e(2) nn tot have Set: "?S e \<le> t" by simp
      have y': "Fin ?yy + Fin (W * ht / t) = Fin (y1 + ?S e * ht / t)"
        by (simp add: Se add_divide_distrib distrib_right)
      from less.prems(3) ds consider "dm \<in> set row" | "dm \<in> set rest" by auto
      then show ?thesis
      proof cases
        case 1
        from row_within[OF assms(2,4) W0 se e(2) nn W_def row[unfolded hh hp] 1]
        have x: "Fin x1 \<le> raw_x dm" "raw_x dm + raw_width dm \<le> Fin (x1 + wd)"
          and y: "raw_y dm = Fin ?yy" "raw_height dm = Fin (W * ht / t)" by simp_all
        have "0 \<le> ?S start * ht / t" using S0 assms(1,3) by simp
        moreover have "?S e * ht / t \<le> ht"
        proof -
          have "?S e * ht / t \<le> t * ht / t"
            using Set assms(1,3) by (intro divide_right_mono mult_right_mono) simp_all
          with assms(1) show ?thesis by simp
        qed
        ultimately have "Fin y1 \<le> Fin ?yy" "Fin ?yy + Fin (W * ht / t) \<le> Fin (y1 + ht)"
          unfolding y' by simp_all
        with x y show ?thesis by (simp add: contained_def wd ht)
      next
        case 2
        from e True have "length cs - e < length cs - start" by simp
        from less.hyps[OF this e(2) rest[unfolded hh hp y'] 2] show ?thesis .
      qed
    qed
  qed
qed

section \<open>What holds in exact arithmetic\<close>

text \<open>
  The four lemmas of this section are about \<open>selectSpan\<close> and \<open>layout\<close> without
  rounding, on finite numbers: they say what the algorithm does over the reals. They
  rest on the two sections on finite numbers above, and they are not statements about
  the source: on doubles each of them fails, as the examples evaluated with \<open>selectSpan_d\<close>
  and \<open>layout_d\<close> further down show.

  When a candidate after the starting index has the size 0 and all the sizes from
  \<open>start\<close> up to it are finite and strictly positive (with a finite, strictly positive
  \<open>space\<close>), the running minimum becomes 0, the term \<open>scoreFromMin\<close> and the score
  are \<open>+\<infinity>\<close>, the candidate is rejected, and the span returned ends at that index at
  the latest.
\<close>

lemma zero_after_start_exact:
  assumes "start < k" "k < length cs" "0 < sp"
      and "\<forall>j. start \<le> j \<and> j < k \<longrightarrow> positive (size' (cs ! j))"
      and "size' (cs ! k) = Fin 0"
  shows "scoreFromMin (sizes cs start (Suc k)) (Fin sp) = PInf \<and>
         score (sizes cs start (Suc k)) (Fin sp) = PInf \<and>
         rejected cs (Fin sp) start k \<and>
         (\<exists>e s. selectSpan cs (Fin sp) start = Inr (e, s) \<and> start < e \<and> e \<le> k)"
proof -
  from assms have kl: "k \<le> length cs" by simp
  from positive_span[OF assms(1) kl assms(4)] obtain rs where
    rs: "rs \<noteq> []" "\<forall>r\<in>set rs. 0 < r" "sizes cs start k = map Fin rs" by blast
  from assms have snoc: "sizes cs start (Suc k) = map Fin rs @ [Fin 0]"
    by (simp add: sizes_Suc rs(3))
  from score_zero_after_positive[OF rs(1,2) assms(3)] snoc
  have inf: "scoreFromMin (sizes cs start (Suc k)) (Fin sp) = PInf"
       "score (sizes cs start (Suc k)) (Fin sp) = PInf" by simp_all
  from score_positive[OF rs(1,2) assms(3)] rs(3) obtain a where
    a: "score (sizes cs start k) (Fin sp) = Fin a" "0 < a" by auto
  with inf have rej: "rejected cs (Fin sp) start k" by (simp add: rejected_def)
  from assms have "start < length cs" by simp
  from selectSpan_char[OF this, of "Fin sp"] obtain e s where
    sel: "selectSpan cs (Fin sp) start = Inr (e, s)" and "start < e"
    and inc: "\<forall>j. start < j \<and> j < e \<longrightarrow> \<not> rejected cs (Fin sp) start j"
    by blast
  from inc rej assms(1) have "e \<le> k" by (meson not_le)
  with sel \<open>start < e\<close> inf rej show ?thesis by blast
qed

text \<open>
  On finite, strictly positive sizes, with a finite, strictly positive \<open>space\<close>, the
  recorded score never increases over the span, and the \<open>lastScore\<close> the loop ends
  with is the least of the scores recorded.
\<close>

lemma scores_decrease_exact:
  assumes "start < length cs" "\<forall>c\<in>set cs. positive (size' c)" "0 < sp"
  shows "\<exists>e s ls.
           selectSpan_loop cs (Fin sp) (size' (cs ! start)) (size' (cs ! start)) (Fin 0) (Fin 0) start
             = (e, s, ls) \<and>
           selectSpan cs (Fin sp) start = Inr (e, s) \<and>
           ls = score (sizes cs start e) (Fin sp) \<and>
           (\<forall>j. start < j \<and> j < e \<longrightarrow>
              score (sizes cs start (Suc j)) (Fin sp) \<le> score (sizes cs start j) (Fin sp)) \<and>
           (\<forall>j. start < j \<and> j \<le> e \<longrightarrow> ls \<le> score (sizes cs start j) (Fin sp))"
proof -
  from selectSpan_char[OF assms(1), of "Fin sp"] obtain e s ls where
    run: "selectSpan_loop cs (Fin sp) (size' (cs ! start)) (size' (cs ! start)) (Fin 0) (Fin 0) start
             = (e, s, ls)"
    and sel: "selectSpan cs (Fin sp) start = Inr (e, s)"
    and bounds: "start < e" "e \<le> length cs"
    and ls: "ls = score (sizes cs start e) (Fin sp)"
    and inc: "\<forall>j. start < j \<and> j < e \<longrightarrow> \<not> rejected cs (Fin sp) start j"
    by blast
  define f where "f j = val (score (sizes cs start j) (Fin sp))" for j
  have pos: "score (sizes cs start j) (Fin sp) = Fin (f j) \<and> 0 < f j" if "start < j" "j \<le> e" for j
  proof -
    from that bounds have jl: "j \<le> length cs" by simp
    then have "\<forall>i. start \<le> i \<and> i < j \<longrightarrow> positive (size' (cs ! i))"
      using assms(2) by simp
    from positive_span_score[OF that(1) jl assms(3) this]
    obtain a where "score (sizes cs start j) (Fin sp) = Fin a" "0 < a" by blast
    then show ?thesis by (simp add: f_def)
  qed
  have step: "f (Suc j) \<le> f j" if "start < j" "j < e" for j
  proof -
    from that inc have "\<not> rejected cs (Fin sp) start j" by simp
    moreover from that pos[of j] pos[of "Suc j"]
    have "score (sizes cs start j) (Fin sp) = Fin (f j)" "0 < f j"
      "score (sizes cs start (Suc j)) (Fin sp) = Fin (f (Suc j))" by simp_all
    ultimately show ?thesis by (simp add: rejected_def)
  qed
  have mono: "f e \<le> f (e - d)" if "start < e - d" for d
    using that
  proof (induction d)
    case 0
    show ?case by simp
  next
    case (Suc d)
    then have "start < e - d" "Suc (e - Suc d) = e - d" "e - Suc d < e" by simp_all
    with Suc step[of "e - Suc d"] show ?case by simp
  qed
  have "score (sizes cs start (Suc j)) (Fin sp) \<le> score (sizes cs start j) (Fin sp)"
    if "start < j" "j < e" for j
    using that pos[of j] pos[of "Suc j"] step[of j] by simp
  moreover have "ls \<le> score (sizes cs start j) (Fin sp)" if "start < j" "j \<le> e" for j
  proof -
    from that have "start < e - (e - j)" "e - (e - j) = j" by simp_all
    with mono[of "e - j"] have "f e \<le> f j" by simp
    with that pos[of j] pos[of e] bounds ls show ?thesis by simp
  qed
  ultimately show ?thesis using run sel ls by blast
qed

text \<open>
  For a node whose children are laid out and have finite sizes, the areas of the elements
  of a strip that passes the cutoff (unrounded width times height) add up to the sum of
  the strip divided by the size of the node, times the content area.
\<close>

lemma strip_area_exact:
  assumes lo: "laid_out opts d width height cs x1 y1 x2 y2 t"
      and fin: "\<forall>c\<in>set cs. isFinite (size' c)"
      and sp: "space = Math_sqrt (size' d / ((Fin x2 - Fin x1) * (Fin y2 - Fin y1))) * (Fin x2 - Fin x1)"
      and reach: "s \<in> set (strip_starts cs (size' d) space 0)"
      and sel: "selectSpan cs space s = Inr (e, w)"
      and pass: "\<not> w / size' d < Fin (1 / 10)"
  shows "\<exists>ds. layout opts d lvl width height = Inr ds \<and>
           map node (take (e - s) (drop s ds)) = take (e - s) (drop s cs) \<and>
           w = sum_numbers (sizes cs s e) \<and>
           sum_numbers (map (\<lambda>dm. raw_width dm * raw_height dm) (take (e - s) (drop s ds)))
             = w / size' d * ((Fin x2 - Fin x1) * (Fin y2 - Fin y1))"
proof -
  define sc where "sc = sqrt (t / ((x2 - x1) * (y2 - y1)))"
  define wd where "wd = x2 - x1"
  define ht where "ht = y2 - y1"
  note f = laid_out_layout[OF lo, folded sc_def wd_def ht_def]
  from lo have t: "size' d = Fin t" "0 < t" by (simp_all add: laid_out_def)
  from f(2,3) have wd: "0 < wd" and ht: "0 < ht" by simp_all
  from sp f(6) have space: "space = Fin (sc * wd)" by (simp add: wd_def)
  from sel have lt: "s < length cs" by (simp add: selectSpan_def split: if_splits)
  from selectSpan_char[OF lt, of space] sel
  have w_sum: "w = sum_numbers (sizes cs s e)" and e: "s < e" "e \<le> length cs" by auto
  define W where "W = sum_list (map val (sizes cs s e))"
  from span_sum_finite[OF sel fin] have w: "w = Fin W" by (simp add: W_def)
  from pass w t have W: "W \<noteq> 0" by auto
  \<comment> \<open>the result, cut at the start of the strip\<close>
  from sp f(7) have space2: "space = Fin sc * (Fin x2 - Fin x1)" by simp
  from layout_strips_prefix[OF reach[unfolded t(1)] space2, of opts lvl "Fin y1"]
  obtain pre y' rest where
    r: "layout_strips opts cs (Fin t) lvl (Fin x1) (Fin x2) (Fin sc) s y' = Inr rest"
    and whole: "layout_strips opts cs (Fin t) lvl (Fin x1) (Fin x2) (Fin sc) 0 (Fin y1)
                  = Inr (pre @ rest)"
    and n: "map node pre = take (s - 0) (drop 0 cs)"
    by auto
  from n lt have lp: "length pre = s"
    by (metis length_map length_take less_or_eq_imp_le min.absorb2 minus_nat.diff_0 drop0)
  from sel space2 have sel': "selectSpan cs (Fin sc * (Fin x2 - Fin x1)) s = Inr (e, w)"
    by simp
  from pass t have pass': "\<not> w / Fin t < Fin (1 / 10)" by simp
  from layout_strips_step[OF lt sel' pass', of opts lvl y'] r
  obtain row rest' where
    row: "layout_row opts cs lvl (Fin sc) y' (w / (Fin sc * (Fin x2 - Fin x1)))
             (w / (Fin sc * (Fin x2 - Fin x1)) / Fin sc) s e (Fin x1) = Inr row"
    and rest: "rest = row @ rest'"
    by auto
  from f(4) wd have nz: "sc * wd \<noteq> 0" "sc \<noteq> 0" by simp_all
  with w have hh: "w / (Fin sc * (Fin x2 - Fin x1)) = Fin (W / (sc * wd))"
    and hp: "Fin (W / (sc * wd)) / Fin sc = Fin (W / (sc * wd) / sc)"
    by (simp_all add: wd_def)
  from e have se: "s \<le> e" by simp
  from strip_area[OF t(2) wd ht f(4) f(5) W se e(2) fin W_def row[unfolded hh hp]]
  have area: "sum_numbers (map (\<lambda>dm. raw_width dm * raw_height dm) row) = Fin (W / t * (wd * ht))" .
  from layout_row_nodes[OF se e(2) row] have nodes: "map node row = take (e - s) (drop s cs)" .
  then have "length row = e - s" using e(2)
    by (metis length_map length_take length_drop min.absorb2 diff_le_mono)
  with lp rest have tk: "take (e - s) (drop s (pre @ rest)) = row" by simp
  from t wd ht have target: "w / size' d * ((Fin x2 - Fin x1) * (Fin y2 - Fin y1)) =
      Fin (W / t * (wd * ht))"
    using w by (simp add: wd_def ht_def)
  from f(1)[of lvl] whole
  have "layout opts d lvl width height = Inr (pre @ rest)" by simp
  with tk nodes area target w_sum show ?thesis by simp
qed

text \<open>
  For a node whose children are laid out, with sizes that are finite and not negative and
  add up to at most the size of the node, every element appended lies in the content
  rectangle.
\<close>

lemma containment_exact:
  assumes "laid_out opts d width height cs x1 y1 x2 y2 t"
      and "\<forall>c\<in>set cs. nonneg (size' c)"
      and "sum_numbers (map size' cs) \<le> size' d"
  shows "\<exists>ds. layout opts d lvl width height = Inr ds \<and>
              (\<forall>dm\<in>set ds. contained x1 y1 x2 y2 dm)"
proof -
  define sc where "sc = sqrt (t / ((x2 - x1) * (y2 - y1)))"
  note f = laid_out_layout[OF assms(1), folded sc_def]
  from assms(1) have t: "size' d = Fin t" "0 < t" by (simp_all add: laid_out_def)
  from f(2,3) have wd: "0 < x2 - x1" and ht: "0 < y2 - y1" by simp_all
  from assms(2) have fin: "\<forall>w\<in>set (map size' cs). isFinite w" by (simp add: nonneg_isFinite)
  have "sum_numbers (map size' cs) = sum_numbers (map Fin (map val (map size' cs)))"
    by (simp only: map_Fin_val[OF fin])
  also have "\<dots> = Fin (sum_list (map val (map size' cs)))" by (rule sum_numbers_Fin)
  finally have tot: "sum_list (map val (sizes cs 0 (length cs))) \<le> t"
    using assms(3) t by (simp add: sizes_all)
  obtain ds where ds: "layout opts d lvl width height = Inr ds"
    using layout_returns(1) by blast
  with f(1)[of lvl] have "layout_strips opts cs (Fin t) lvl (Fin x1) (Fin x2) (Fin sc) 0
      (Fin (y1 + sum_list (map val (sizes cs 0 0)) * (y2 - y1) / t)) = Inr ds" by simp
  from strips_contained[OF t(2) wd ht f(4,5) refl refl assms(2) tot _ this]
  have "\<forall>dm\<in>set ds. contained x1 y1 x2 y2 dm" by simp
  with ds show ?thesis by blast
qed

section \<open>Comparisons of scores\<close>

text \<open>
  What follows uses the comparisons of numbers and \<open>Math.max\<close>, which do not round,
  and nothing of the arithmetic. A truthy number is not NaN; among numbers that are not
  NaN, not greater is less or equal.
\<close>

lemma truthy_not_NaN: "truthy a \<Longrightarrow> a \<noteq> NaN"
  by (cases a) simp_all

lemma not_less_number:
  fixes a b :: number
  assumes "a \<noteq> NaN" "b \<noteq> NaN" "\<not> a < b"
  shows "b \<le> a"
  using assms by (cases a; cases b) simp_all

lemma le_number_trans:
  fixes a b c :: number
  assumes "a \<le> b" "b \<le> c"
  shows "a \<le> c"
  using assms by (cases a; cases b; cases c) simp_all

lemma le_number_refl:
  fixes a :: number
  shows "a \<noteq> NaN \<Longrightarrow> a \<le> a"
  by (cases a) simp_all

text \<open>
  The score is \<open>+\<infinity>\<close> when the term \<open>scoreFromMin\<close> is and the other term is not
  NaN.
\<close>

lemma score_infinite:
  assumes "scoreFromMin ws space = PInf" "scoreFromMax ws space \<noteq> NaN"
  shows "score ws space = PInf"
  using assms by (cases "scoreFromMax ws space") (simp_all add: score_def)

text \<open>
  When all the scores recorded in a call are truthy, they never increase, and the
  \<open>lastScore\<close> the loop ends with is the least of them.
\<close>

lemma selectSpan_scores_minimum:
  assumes "start < length cs"
      and "selectSpan_loop cs space (size' (cs ! start)) (size' (cs ! start)) (Fin 0) (Fin 0) start
             = (e, s, ls)"
      and "\<forall>j. start < j \<and> j \<le> e \<longrightarrow> truthy (score (sizes cs start j) space)"
  shows "(\<forall>j. start < j \<and> j < e \<longrightarrow>
            score (sizes cs start (Suc j)) space \<le> score (sizes cs start j) space) \<and>
         (\<forall>j. start < j \<and> j \<le> e \<longrightarrow> ls \<le> score (sizes cs start j) space)"
proof -
  let ?f = "\<lambda>j. score (sizes cs start j) space"
  from selectSpan_char[OF assms(1), of space] assms(2)
  have bounds: "start < e" "e \<le> length cs"
    and ls: "ls = ?f e"
    and inc: "\<forall>j. start < j \<and> j < e \<longrightarrow> \<not> rejected cs space start j"
    by auto
  have step: "?f (Suc j) \<le> ?f j" if "start < j" "j < e" for j
  proof -
    from that assms(3) have t: "truthy (?f j)" "truthy (?f (Suc j))" by simp_all
    from that inc t(1) have "\<not> ?f j < ?f (Suc j)" by (simp add: rejected_def)
    with t show ?thesis by (intro not_less_number truthy_not_NaN)
  qed
  have mono: "?f e \<le> ?f (e - d)" if "start < e - d" for d
    using that
  proof (induction d)
    case 0
    with assms(3) bounds show ?case by (simp add: le_number_refl truthy_not_NaN)
  next
    case (Suc d)
    then have a: "start < e - d" "Suc (e - Suc d) = e - d" "e - Suc d < e" by simp_all
    from step[OF Suc.prems a(3)] a(2) have "?f (e - d) \<le> ?f (e - Suc d)" by simp
    with Suc.IH[OF a(1)] show ?case by (rule le_number_trans)
  qed
  have "ls \<le> ?f j" if "start < j" "j \<le> e" for j
  proof -
    from that have "start < e - (e - j)" "e - (e - j) = j" by simp_all
    with mono[of "e - j"] ls show ?thesis by simp
  qed
  with step show ?thesis by blast
qed

section \<open>The examples, evaluated\<close>

lemma leaf_sel [simp]: "size' (leaf w) = Fin w" "children (leaf w) = None"
  by (simp_all add: leaf_def)

lemma padded_sel [simp]:
  "getPadding padded = (Fin 98, Fin 0, Fin 0, Fin 38)" "getSpacing padded = Fin 0"
  by (simp_all add: padded_def)

lemma newOptions_sel [simp]:
  "getPadding newOptions = (Fin 0, Fin 0, Fin 0, Fin 0)" "getSpacing newOptions = Fin 0"
  by (simp_all add: newOptions_def)

lemma inner_sel [simp]: "size' inner = Fin 16000" "children inner = Some [leaf 16000]"
  by (simp_all add: inner_def)

lemma outer_sel [simp]: "size' outer = Fin 16000" "children outer = Some [inner]"
  by (simp_all add: outer_def)

lemma three_sel [simp]: "size' three = Fin 10000"
  "children three = Some [leaf 6000, leaf 3500, leaf 500]"
  by (simp_all add: three_def)

lemma sel_leaf: "selectSpan [leaf 16000] (Fin 80) 0 = Inr (1, Fin 16000)"
  by (simp add: selectSpan_def selectSpan_loop.simps Let_def)

lemma lay_leaf [simp]: "layout opts (leaf w) lvl width height = Inr []"
  by (subst layout.simps) simp

lemma lay_inner: "layout padded inner (Suc 0) (Fin 78) (Fin 198) =
   Inr [Dom (leaf 16000) 2 (Fin 38) (Fin 98) (Fin 40) (Fin 100) (Px (Fin 38)) (Px (Fin 40)) (Px (Fin 98)) (Px (Fin 100)) []]"
  by (subst layout.simps)
     (simp add: layout_strips.simps layout_row.simps Let_def sel_leaf px_def)

lemma sel_inner: "selectSpan [inner] (Fin 80) 0 = Inr (1, Fin 16000)"
  by (simp add: selectSpan_def selectSpan_loop.simps Let_def)

lemma lay_outer: "layout padded outer 0 (Fin 118) (Fin 298) =
   Inr [Dom inner 1 (Fin 38) (Fin 98) (Fin 80) (Fin 200) (Px (Fin 38)) (Px (Fin 80)) (Px (Fin 98)) (Px (Fin 200))
     [Dom (leaf 16000) 2 (Fin 38) (Fin 98) (Fin 40) (Fin 100) (Px (Fin 38)) (Px (Fin 40)) (Px (Fin 98)) (Px (Fin 100)) []]]"
  by (subst layout.simps)
     (simp add: layout_strips.simps layout_row.simps Let_def sel_inner px_def lay_inner)

lemma lay_inner4: "layout padded inner 1 (Fin 80 - Fin 4) (Fin 200 - Fin 4) = Inr []"
  by (subst layout.simps) simp

lemma sel3: "selectSpan [leaf 6000, leaf 3500, leaf 500] (Fin 100) 0 = Inr (1, Fin 6000)"
  "selectSpan [leaf 6000, leaf 3500, leaf 500] (Fin 100) (Suc 0) = Inr (2, Fin 3500)"
  "selectSpan [leaf 6000, leaf 3500, leaf 500] (Fin 100) 2 = Inr (3, Fin 500)"
  by (simp_all add: selectSpan_def selectSpan_loop.simps Let_def)

lemma starts3: "strip_starts [leaf 6000, leaf 3500, leaf 500] (Fin 10000) (Fin 100) 0 = [0, 1, 2]"
  by (simp add: strip_starts.simps sel3)

lemma lay_three: "layout newOptions three 0 (Fin 100) (Fin 100) = Inr
  [Dom (leaf 6000) 1 (Fin 0) (Fin 0) (Fin 100) (Fin 60) (Px (Fin 0)) (Px (Fin 100)) (Px (Fin 0)) (Px (Fin 60)) [],
   Dom (leaf 3500) 1 (Fin 0) (Fin 60) (Fin 100) (Fin 35) (Px (Fin 0)) (Px (Fin 100)) (Px (Fin 60)) (Px (Fin 35)) []]"
  by (subst layout.simps)
     (simp add: layout_strips.simps layout_row.simps Let_def sel3 px_def)

lemma four_sel [simp]: "size' four = Fin 10000"
  "children four = Some [leaf 6000, leaf 2000, leaf 2000]"
  by (simp_all add: four_def)




lemma laid_out_four: "laid_out newOptions four (Fin 100) (Fin 100) [leaf 6000, leaf 2000, leaf 2000] 0 0 100 100 10000"
  by (simp add: laid_out_def content_def)

section \<open>The functions on doubles, evaluated\<close>

text \<open>
  To evaluate \<open>binary64\<close>: with the exponent of \<open>x\<close> at hand, for a normal and for a
  subnormal \<open>x\<close>; and the natural numbers below \<open>2 ^ 53\<close> are doubles.
\<close>

lemma ties_even_le: "x \<le> of_int n \<Longrightarrow> ties_even x \<le> n"
  unfolding ties_even_def Let_def by (auto; linarith)

lemma ties_even_of_int [simp]: "ties_even (of_int m) = m"
  by (simp add: ties_even_def)

lemma two_powr: "(2::real) powr real_of_int k = 2 powi k"
  by (rule powr_real_of_int') simp_all

lemma binary64_normal:
  assumes "2 powi e \<le> \<bar>x\<bar>" "\<bar>x\<bar> < 2 powi (e + 1)" "- 1022 \<le> e"
  shows "binary64 x = (let q = 2 powi (e - 52); y = of_int (ties_even (\<bar>x\<bar> / q)) * q
          in if 2 powi 1024 \<le> y then (if 0 < x then PInf else NInf)
             else Fin (sgn x * y))"
proof -
  have pos: "0 < \<bar>x\<bar>"
  proof -
    have "0 < (2::real) powi e" by simp
    with assms(1) show ?thesis by linarith
  qed
  have "\<lfloor>log 2 \<bar>x\<bar>\<rfloor> = e"
    using floor_log_eq_powr_iff[of "\<bar>x\<bar>" 2 e] pos assms(1,2)
    unfolding two_powr by simp
  with pos assms(3) show ?thesis by (simp add: binary64_def Let_def max_def)
qed

lemma binary64_subnormal:
  assumes "\<bar>x\<bar> < 2 powi (- 1022)" "x \<noteq> 0"
  shows "binary64 x = Fin (sgn x * (of_int (ties_even (\<bar>x\<bar> / 2 powi (- 1074))) * 2 powi (- 1074)))"
proof -
  have pos: "0 < \<bar>x\<bar>" using assms(2) by simp
  have "\<lfloor>log 2 \<bar>x\<bar>\<rfloor> < - 1022"
  proof -
    have "log 2 \<bar>x\<bar> < log 2 (2 powr real_of_int (- 1022))"
      using assms(1) pos unfolding two_powr by (subst log_less_cancel_iff) simp_all
    also have "\<dots> = real_of_int (- 1022)" by (rule log_powr_cancel) simp_all
    finally show ?thesis by linarith
  qed
  hence e: "max \<lfloor>log 2 \<bar>x\<bar>\<rfloor> (- 1022) = - 1022" by simp
  have "\<bar>x\<bar> / 2 powi (- 1074) \<le> 2 powi (- 1022) / 2 powi (- 1074)"
    using assms(1) by (intro divide_right_mono) auto
  also have "\<dots> = of_int (2 ^ 52)" by (simp add: power_int_minus field_simps)
  finally have "ties_even (\<bar>x\<bar> / 2 powi (- 1074)) \<le> 2 ^ 52" by (rule ties_even_le)
  hence "real_of_int (ties_even (\<bar>x\<bar> / 2 powi (- 1074))) \<le> 2 ^ 52" 
    by (metis of_int_le_iff of_int_numeral of_int_power)
  hence "of_int (ties_even (\<bar>x\<bar> / 2 powi (- 1074))) * 2 powi (- 1074) \<le> 2 ^ 52 * (2::real) powi (- 1074)"
    by (intro mult_right_mono) auto
  also have "\<dots> < 2 powi 1024" by (simp add: power_int_minus field_simps)
  finally have bound: "of_int (ties_even (\<bar>x\<bar> / 2 powi (- 1074))) * 2 powi (- 1074) < (2::real) powi 1024" .
  show ?thesis using assms(2) bound by (simp add: binary64_def Let_def e del: max.absorb1 max.absorb2)
qed

lemma binary64_0 [simp]: "binary64 0 = Fin 0"
  by (simp add: binary64_def)

lemma binary64_of_nat:
  assumes "0 < n" "n < 2 ^ 53"
  shows "binary64 (of_nat n) = Fin (of_nat n)"
proof -
  from assms(1) obtain e where e: "2 ^ e \<le> n" "n < 2 ^ (e + 1)"
    using ex_power_ivl1[of 2 n] by auto
  have e52: "e \<le> 52"
  proof (rule ccontr)
    assume "\<not> e \<le> 52"
    then have "53 \<le> e" by simp
    then have "(2::nat) ^ 53 \<le> 2 ^ e" by (rule power_increasing) simp
    with e(1) assms(2) show False by linarith
  qed
  have a: "\<bar>real n\<bar> = real n" by simp
  have lo: "2 powi int e \<le> \<bar>real n\<bar>"
    using e(1) by (simp add: power_int_def)
  have hi: "\<bar>real n\<bar> < 2 powi (int e + 1)"
  proof -
    from e(2) have "real n < real (2 * 2 ^ e)" by (simp only: of_nat_less_iff power_add power_one_right mult.commute)
    then show ?thesis by (simp add: power_int_def nat_add_distrib)
  qed
  have q: "(2::real) powi (int e - 52) = 1 / 2 ^ (52 - e)"
    using e52 by (simp add: power_int_def nat_diff_distrib field_simps)
  have "real n / (1 / 2 ^ (52 - e)) = of_int (int (n * 2 ^ (52 - e)))" by simp
  then have r: "ties_even (real n / (1 / 2 ^ (52 - e))) = int (n * 2 ^ (52 - e))"
    by (simp only: ties_even_of_int)
  have big: "real n < 2 powi 1024"
  proof -
    have "real n < 2 ^ 53" using assms(2) by (metis of_nat_less_iff of_nat_numeral of_nat_power)
    also have "\<dots> \<le> (2::real) ^ 1024" by (rule power_increasing) simp_all
    finally show ?thesis by simp
  qed
  from binary64_normal[OF lo hi] have "binary64 (real n) =
    (let q = 2 powi (int e - 52); y = real_of_int (ties_even (\<bar>real n\<bar> / q)) * q
     in if 2 powi 1024 \<le> y then if 0 < real n then PInf else NInf else Fin (sgn (real n) * y))"
    by simp
  also have "\<dots> = Fin (real n)"
    unfolding Let_def a q r using assms(1) big by simp
  finally show ?thesis .
qed

lemma binary64_numeral [simp]: "numeral k < (2::nat) ^ 53 \<Longrightarrow> binary64 (numeral k) = Fin (numeral k)"
  using binary64_of_nat[of "numeral k"] by simp

lemma binary64_1 [simp]: "binary64 1 = Fin 1"
  using binary64_of_nat[of 1] by simp


lemma tiny_pos: "0 < tiny" "tiny \<noteq> 0"
  by (simp_all add: tiny_def)

lemma binary64_tiny:
  "binary64 tiny = Fin tiny"
  "binary64 (tiny * tiny) = Fin 0"
  "binary64 (2 * tiny) = Fin (2 * tiny)"
  "binary64 (4 * (tiny * tiny)) = Fin (4 * (tiny * tiny))"
  unfolding tiny_def
  subgoal by (subst binary64_normal[of "- 538"]) (simp_all add: ties_even_def Let_def power_int_minus)
  subgoal by (subst binary64_subnormal) (simp_all add: ties_even_def Let_def power_int_minus)
  subgoal by (subst binary64_normal[of "- 537"]) (simp_all add: ties_even_def Let_def power_int_minus)
  subgoal by (subst binary64_subnormal) (simp_all add: ties_even_def Let_def power_int_minus)
  done


lemma lay_leaf_d [simp]: "layout_d opts (leaf w) lvl width height = Inr []"
  by (subst layout_d.simps) simp




text \<open>
  A size 0 after the starting index, on doubles: the sizes are \<open>tiny\<close> and 0, and
  \<open>space\<close> is 1. The square of the sum underflows to 0, the term \<open>scoreFromMin\<close> of
  the second candidate is \<open>0 / 0\<close>, its score is NaN, and it is included.
\<close>

lemma selectSpan_zero_underflow:
  "selectSpan_d [leaf tiny, leaf 0] (Fin 1) 0 = Inr (2, Fin tiny)"
  using tiny_pos
  by (simp add: selectSpan_d_def selectSpan_loop_d.simps Let_def leaf_def binary64_tiny)

section \<open>Claims about selectSpan\<close>

text \<open>
  C3. For every list of children and every valid start index (\<open>start < length cs\<close>),
  \<open>selectSpan\<close> returns, and the end it returns is strictly greater than \<open>start\<close>:
  the span is never empty, whatever the sizes and whatever \<open>space\<close> (a strictly
  positive one in particular). The first candidate is never refused, since
  \<open>lastScore\<close> is still \<open>0\<close> when it is examined.
\<close>

theorem selectSpan_never_empty:
  assumes "start < length cs"
  shows "\<exists>e s. selectSpan cs space start = Inr (e, s) \<and> start < e \<and> e \<le> length cs"
  using selectSpan_char[OF assms, of space] by blast

theorem selectSpan_never_empty_witness:
  "(1::nat) < length [leaf 5, leaf 0, leaf 0] \<and>
   (\<exists>e s. selectSpan [leaf 5, leaf 0, leaf 0] (Fin 10) 1 = Inr (e, s) \<and> 1 < e \<and>
      e \<le> length [leaf 5, leaf 0, leaf 0])"
  using selectSpan_never_empty[of 1 "[leaf 5, leaf 0, leaf 0]" "Fin 10"] by simp

text \<open>
  C4. The loop of \<open>selectSpan\<close> leaves without the candidate at index \<open>e\<close> exactly
  when that candidate is \<open>rejected\<close>: a score has been recorded and the score with the
  candidate is strictly greater than it. Then \<open>e\<close> is the end returned, and the sum
  returned is the sum of the sizes before the candidate. Every candidate before \<open>e\<close>
  was not rejected and was included: the end moved past it, the sum returned is the sum
  of the sizes from \<open>start\<close> to \<open>e - 1\<close>, and \<open>lastScore\<close> is the score of the last
  candidate included. When no candidate is rejected, \<open>e\<close> is the length of the list.
  That a score has been recorded is the source's test that \<open>lastScore\<close> is truthy; on
  finite sizes that are not negative a recorded score is never \<open>0\<close>, and the test adds
  nothing to the comparison (\<open>rejected_iff_greater\<close>).
\<close>

theorem selectSpan_stop_rule:
  assumes "start < length cs"
  shows "\<exists>e s ls.
           selectSpan_loop cs space (size' (cs ! start)) (size' (cs ! start)) (Fin 0) (Fin 0) start
             = (e, s, ls) \<and>
           selectSpan cs space start = Inr (e, s) \<and>
           s = sum_numbers (sizes cs start e) \<and> ls = score (sizes cs start e) space \<and>
           (\<forall>j. start < j \<and> j < e \<longrightarrow> \<not> rejected cs space start j) \<and>
           (e < length cs \<longrightarrow> rejected cs space start e)"
  using selectSpan_char[OF assms, of space] by blast

theorem selectSpan_stop_rule_witness:
  "(1::nat) < length [leaf 6, leaf 3, leaf 2, leaf 1] \<and>
   selectSpan [leaf 6, leaf 3, leaf 2, leaf 1] (Fin 4) 1 = Inr (3, Fin 5) \<and>
   sum_numbers (sizes [leaf 6, leaf 3, leaf 2, leaf 1] 1 3) = Fin 5 \<and>
   score (sizes [leaf 6, leaf 3, leaf 2, leaf 1] 1 3) (Fin 4) = Fin (48 / 25) \<and>
   \<not> rejected [leaf 6, leaf 3, leaf 2, leaf 1] (Fin 4) 1 2 \<and>
   rejected [leaf 6, leaf 3, leaf 2, leaf 1] (Fin 4) 1 3"
proof -
  let ?cs = "[leaf 6, leaf 3, leaf 2, leaf 1]"
  have len: "(1::nat) < length ?cs" by simp
  have run: "selectSpan_loop ?cs (Fin 4) (size' (?cs ! 1)) (size' (?cs ! 1)) (Fin 0) (Fin 0) 1
             = (3, Fin 5, Fin (48 / 25))"
    by (simp add: selectSpan_loop.simps leaf_def Let_def)
  from selectSpan_stop_rule[OF len, of "Fin 4"] obtain e s ls where
    r: "selectSpan_loop ?cs (Fin 4) (size' (?cs ! 1)) (size' (?cs ! 1)) (Fin 0) (Fin 0) 1 = (e, s, ls)"
    and sel: "selectSpan ?cs (Fin 4) 1 = Inr (e, s)"
    and s: "s = sum_numbers (sizes ?cs 1 e)" and ls: "ls = score (sizes ?cs 1 e) (Fin 4)"
    and inc: "\<forall>j. 1 < j \<and> j < e \<longrightarrow> \<not> rejected ?cs (Fin 4) 1 j"
    and rej: "e < length ?cs \<longrightarrow> rejected ?cs (Fin 4) 1 e"
    by blast
  from r run have e: "e = 3" and s5: "s = Fin 5" and l: "ls = Fin (48 / 25)" by simp_all
  from inc e have "\<not> rejected ?cs (Fin 4) 1 2" by simp
  moreover from rej e have "rejected ?cs (Fin 4) 1 3" by simp
  ultimately show ?thesis using len sel s ls e s5 l by simp
qed

text \<open>
  C7. With the sizes 10, 9 and 1, \<open>space = 10\<close> and \<open>start = 0\<close>, \<open>selectSpan\<close>
  returns the end 2 and the sum 19. The score of the first two items is 1000/361, the
  score of the three is 4, which is greater: the third item is rejected.
\<close>

theorem selectSpan_10_9_1:
  "selectSpan [leaf 10, leaf 9, leaf 1] (Fin 10) 0 = Inr (2, Fin 19) \<and>
   score (sizes [leaf 10, leaf 9, leaf 1] 0 2) (Fin 10) = Fin (1000 / 361) \<and>
   score (sizes [leaf 10, leaf 9, leaf 1] 0 3) (Fin 10) = Fin 4 \<and>
   rejected [leaf 10, leaf 9, leaf 1] (Fin 10) 0 2"
proof -
  have "selectSpan [leaf 10, leaf 9, leaf 1] (Fin 10) 0 = Inr (2, Fin 19)"
    by (simp add: selectSpan_def selectSpan_loop.simps leaf_def Let_def)
  moreover have two: "score (sizes [leaf 10, leaf 9, leaf 1] 0 2) (Fin 10) = Fin (1000 / 361)"
    by (simp add: score_def scoreFromMax_def scoreFromMin_def sizes_def leaf_def
        span_min_def span_max_def sum_numbers_def)
  moreover have three: "score (sizes [leaf 10, leaf 9, leaf 1] 0 3) (Fin 10) = Fin 4"
    by (simp add: score_def scoreFromMax_def scoreFromMin_def sizes_def leaf_def
        span_min_def span_max_def sum_numbers_def)
  moreover have "rejected [leaf 10, leaf 9, leaf 1] (Fin 10) 0 2"
    unfolding rejected_def two
    using three by (simp add: numeral_3_eq_3)
  ultimately show ?thesis by blast
qed







section \<open>Claims about layout\<close>







text \<open>
  C6. When the content rectangle left by the padding is less than 40 wide or less than
  100 high, \<open>layout\<close> returns at once: no element is appended for the children of the
  node, so there is nothing to recurse into, and no error is raised, whether the node has
  children or not.
\<close>

theorem layout_degenerate:
  assumes "content opts width height = (x1, y1, x2, y2)"
      and "x2 - x1 < Fin 40 \<or> y2 - y1 < Fin 100"
  shows "layout opts d lvl width height = Inr []"
proof (cases "children d")
  case None
  then show ?thesis by (subst layout.simps) simp
next
  case (Some cs)
  from layout_content[OF Some assms(1)] assms(2) show ?thesis by auto
qed

theorem layout_degenerate_witness:
  "content newOptions (Fin 39) (Fin 500) = (Fin 0, Fin 0, Fin 39, Fin 500) \<and>
   Fin 39 - Fin 0 < Fin 40 \<and>
   children three = Some [leaf 6000, leaf 3500, leaf 500] \<and>
   layout newOptions three 0 (Fin 39) (Fin 500) = Inr []"
proof -
  have c: "content newOptions (Fin 39) (Fin 500) = (Fin 0, Fin 0, Fin 39, Fin 500)"
    by (simp add: content_def)
  have h: "Fin 39 - Fin 0 < Fin 40" by simp
  then have "Fin 39 - Fin 0 < Fin 40 \<or> Fin 500 - Fin 0 < Fin 100" by simp
  from layout_degenerate[OF c this, of three 0] c h show ?thesis by simp
qed

text \<open>
  C8, as the source has it. Every element appended for a child is at level
  \<open>lvl + 1\<close>, and what the recursive call appends to it is the layout of the child in a
  rectangle 2 units less wide and 2 units less high than the child's own (unrounded)
  width and height: \<open>widthPx - 2\<close> and \<open>heightPx - 2\<close>, one unit on each side.
\<close>

theorem layout_recursion:
  "\<exists>ds. layout opts d lvl width height = Inr ds \<and>
        (\<forall>dm\<in>set ds. level dm = lvl + 1 \<and>
           layout opts (node dm) (lvl + 1) (raw_width dm - Fin 2) (raw_height dm - Fin 2)
             = Inr (childNodes dm))"
proof -
  obtain ds where ds: "layout opts d lvl width height = Inr ds"
    using layout_returns(1) by blast
  have "level dm = lvl + 1 \<and>
        layout opts (node dm) (lvl + 1) (raw_width dm - Fin 2) (raw_height dm - Fin 2)
          = Inr (childNodes dm)" if dm: "dm \<in> set ds" for dm
  proof (cases "children d")
    case None
    with ds dm show ?thesis by (subst (asm) layout.simps) simp
  next
    case (Some cs)
    obtain x1 y1 x2 y2 where c: "content opts width height = (x1, y1, x2, y2)"
      by (cases "content opts width height") auto
    from layout_content[OF Some c, of lvl] ds dm
    have "layout_strips opts cs (size' d) lvl x1 x2
            (Math_sqrt (size' d / ((x2 - x1) * (y2 - y1)))) 0 y1 = Inr ds"
      by (auto split: if_splits)
    from layout_strips_placed[OF this dm] show ?thesis by (auto simp: placed_def)
  qed
  with ds show ?thesis by blast
qed

theorem layout_recursion_witness:
  "layout padded outer 0 (Fin 118) (Fin 298) =
     Inr [Dom inner 1 (Fin 38) (Fin 98) (Fin 80) (Fin 200)
            (Px (Fin 38)) (Px (Fin 80)) (Px (Fin 98)) (Px (Fin 200))
            [Dom (leaf 16000) 2 (Fin 38) (Fin 98) (Fin 40) (Fin 100)
               (Px (Fin 38)) (Px (Fin 40)) (Px (Fin 98)) (Px (Fin 100)) []]] \<and>
   layout padded inner (0 + 1) (Fin 80 - Fin 2) (Fin 200 - Fin 2) =
     Inr [Dom (leaf 16000) 2 (Fin 38) (Fin 98) (Fin 40) (Fin 100)
            (Px (Fin 38)) (Px (Fin 40)) (Px (Fin 98)) (Px (Fin 100)) []]"
proof -
  from layout_recursion[of padded outer 0 "Fin 118" "Fin 298"] obtain ds where
    ds: "layout padded outer 0 (Fin 118) (Fin 298) = Inr ds"
    and rec: "\<forall>dm\<in>set ds. level dm = 0 + 1 \<and>
           layout padded (node dm) (0 + 1) (raw_width dm - Fin 2) (raw_height dm - Fin 2)
             = Inr (childNodes dm)"
    by blast
  from ds lay_outer have "ds = [Dom inner 1 (Fin 38) (Fin 98) (Fin 80) (Fin 200)
            (Px (Fin 38)) (Px (Fin 80)) (Px (Fin 98)) (Px (Fin 200))
            [Dom (leaf 16000) 2 (Fin 38) (Fin 98) (Fin 40) (Fin 100)
               (Px (Fin 38)) (Px (Fin 40)) (Px (Fin 98)) (Px (Fin 100)) []]]" by simp
  with rec lay_outer show ?thesis by simp
qed

text \<open>
  The claim as it is written has the rectangle 4 units less wide and 4 less high. In
  the example the child is 80 wide and 200 high; with 4 units less its content would be
  38 wide and nothing would be appended to it, but the source appends an element.
\<close>

theorem layout_recursion_not_4:
  "layout padded outer 0 (Fin 118) (Fin 298) =
     Inr [Dom inner 1 (Fin 38) (Fin 98) (Fin 80) (Fin 200)
            (Px (Fin 38)) (Px (Fin 80)) (Px (Fin 98)) (Px (Fin 200))
            [Dom (leaf 16000) 2 (Fin 38) (Fin 98) (Fin 40) (Fin 100)
               (Px (Fin 38)) (Px (Fin 40)) (Px (Fin 98)) (Px (Fin 100)) []]] \<and>
   layout padded inner 1 (Fin 80 - Fin 4) (Fin 200 - Fin 4) = Inr []"
  using lay_outer lay_inner4 by simp

text \<open>
  C5. When the loop over the strips reaches a start whose strip has a sum below a tenth
  of the size of the node, \<open>layout\<close> stops there: the elements appended are those of
  the children before that start, in order, one each. The children of that strip and
  all later ones get none; the children of the earlier strips keep theirs.
\<close>

theorem layout_truncation:
  assumes "children d = Some cs" "content opts width height = (x1, y1, x2, y2)"
      and "\<not> x2 - x1 < Fin 40" "\<not> y2 - y1 < Fin 100"
      and "space = Math_sqrt (size' d / ((x2 - x1) * (y2 - y1))) * (x2 - x1)"
      and "start \<in> set (strip_starts cs (size' d) space 0)" "start < length cs"
      and "selectSpan cs space start = Inr (e, w)" "w / size' d < Fin (1 / 10)"
  shows "\<exists>ds. layout opts d lvl width height = Inr ds \<and> map node ds = take start cs"
proof -
  from layout_strips_prefix[OF assms(6) assms(5), of opts lvl y1]
  obtain pre y' rest where
    r: "layout_strips opts cs (size' d) lvl x1 x2
          (Math_sqrt (size' d / ((x2 - x1) * (y2 - y1)))) start y' = Inr rest"
    and whole: "layout_strips opts cs (size' d) lvl x1 x2
          (Math_sqrt (size' d / ((x2 - x1) * (y2 - y1)))) 0 y1 = Inr (pre @ rest)"
    and n: "map node pre = take (start - 0) (drop 0 cs)"
    by auto
  from layout_strips_cut[OF assms(7) assms(8)[unfolded assms(5)] assms(9), of opts lvl y'] r
  have "rest = []" by simp
  with whole n layout_content[OF assms(1,2), of lvl] assms(3,4) show ?thesis by simp
qed

theorem layout_truncation_witness:
  "children three = Some [leaf 6000, leaf 3500, leaf 500] \<and>
   content newOptions (Fin 100) (Fin 100) = (Fin 0, Fin 0, Fin 100, Fin 100) \<and>
   \<not> Fin 100 - Fin 0 < Fin 40 \<and> \<not> Fin 100 - Fin 0 < Fin 100 \<and>
   Fin 100 = Math_sqrt (size' three / ((Fin 100 - Fin 0) * (Fin 100 - Fin 0))) * (Fin 100 - Fin 0) \<and>
   2 \<in> set (strip_starts [leaf 6000, leaf 3500, leaf 500] (size' three) (Fin 100) 0) \<and>
   2 < length [leaf 6000, leaf 3500, leaf 500] \<and>
   selectSpan [leaf 6000, leaf 3500, leaf 500] (Fin 100) 2 = Inr (3, Fin 500) \<and>
   Fin 500 / size' three < Fin (1 / 10) \<and>
   (\<exists>ds. layout newOptions three 0 (Fin 100) (Fin 100) = Inr ds \<and>
      map node ds = take 2 [leaf 6000, leaf 3500, leaf 500])"
proof -
  let ?cs = "[leaf 6000, leaf 3500, leaf 500]"
  have h1: "children three = Some ?cs" by simp
  have h2: "content newOptions (Fin 100) (Fin 100) = (Fin 0, Fin 0, Fin 100, Fin 100)"
    by (simp add: content_def)
  have h3: "\<not> Fin 100 - Fin 0 < Fin 40" and h4: "\<not> Fin 100 - Fin 0 < Fin 100" by simp_all
  have h5: "Fin 100 =
      Math_sqrt (size' three / ((Fin 100 - Fin 0) * (Fin 100 - Fin 0))) * (Fin 100 - Fin 0)"
    by simp
  have h6: "2 \<in> set (strip_starts ?cs (size' three) (Fin 100) 0)" by (simp add: starts3)
  have h7: "2 < length ?cs" by simp
  have h8: "selectSpan ?cs (Fin 100) 2 = Inr (3, Fin 500)" by (rule sel3)
  have h9: "Fin 500 / size' three < Fin (1 / 10)" by simp
  from layout_truncation[OF h1 h2 h3 h4 h5 h6 h7 h8 h9, of 0] h1 h2 h3 h4 h5 h6 h7 h8 h9
  show ?thesis by blast
qed

end
